theory Spec2Isabelle
  imports Main "HOL-Library.Sublist"
begin

section \<open>JavaScript strings\<close>

text \<open>
  A string of the TypeScript source is modelled by the \<^typ>\<open>string\<close> that is its UTF-8
  encoding, so an ASCII string is modelled by itself; a \<^typ>\<open>string\<close> that is no UTF-8
  encoding stands for no string of the source. The texts that the source looks for in
  a string, with \<open>includes\<close>, \<open>startsWith\<close> and its regular expressions, are ASCII or
  were cut out of a string between ASCII characters, and an ASCII byte occurs in an
  encoding only where it encodes its own character; so searching, cutting and
  replacing give the same result on the encoding as on the string.

  \<open>toUpperCase\<close> and \<open>toLowerCase\<close> change the 26 letters of ASCII only. They model the
  methods of the source on the strings whose characters outside ASCII have no other
  case, such as digits, punctuation and ideographs, and on no others.
\<close>

definition toUpperCase_char :: "char \<Rightarrow> char" where
  "toUpperCase_char c =
     (case map_of (zip ''abcdefghijklmnopqrstuvwxyz'' ''ABCDEFGHIJKLMNOPQRSTUVWXYZ'') c of
        Some u \<Rightarrow> u
      | None \<Rightarrow> c)"

definition toLowerCase_char :: "char \<Rightarrow> char" where
  "toLowerCase_char c =
     (case map_of (zip ''ABCDEFGHIJKLMNOPQRSTUVWXYZ'' ''abcdefghijklmnopqrstuvwxyz'') c of
        Some l \<Rightarrow> l
      | None \<Rightarrow> c)"

definition toUpperCase :: "string \<Rightarrow> string" where
  "toUpperCase s = map toUpperCase_char s"

definition toLowerCase :: "string \<Rightarrow> string" where
  "toLowerCase s = map toLowerCase_char s"

text \<open>\<open>s.replace(/c/g, d)\<close> for a single character \<open>c\<close>.\<close>

definition replace_all_char :: "char \<Rightarrow> char \<Rightarrow> string \<Rightarrow> string" where
  "replace_all_char c d s = map (\<lambda>x. if x = c then d else x) s"

text \<open>
  \<open>s.trim()\<close>. By ECMAScript the method removes, at both ends of the string, the white
  space characters and the line terminators: U+0009 to U+000D, U+0020, U+00A0, U+1680,
  U+2000 to U+200A, U+2028, U+2029, U+202F, U+205F, U+3000 and U+FEFF. \<open>WhiteSpace\<close>
  lists their encodings; none of them begins another, and in an encoded string one of
  them is found at an end only where it encodes its own character.
\<close>

definition WhiteSpace :: "string list" where
  "WhiteSpace =
     [[CHR 0x09], [CHR 0x0A], [CHR 0x0B], [CHR 0x0C], [CHR 0x0D], [CHR 0x20],
      [CHR 0xC2, CHR 0xA0],
      [CHR 0xE1, CHR 0x9A, CHR 0x80],
      [CHR 0xE2, CHR 0x80, CHR 0x80], [CHR 0xE2, CHR 0x80, CHR 0x81],
      [CHR 0xE2, CHR 0x80, CHR 0x82], [CHR 0xE2, CHR 0x80, CHR 0x83],
      [CHR 0xE2, CHR 0x80, CHR 0x84], [CHR 0xE2, CHR 0x80, CHR 0x85],
      [CHR 0xE2, CHR 0x80, CHR 0x86], [CHR 0xE2, CHR 0x80, CHR 0x87],
      [CHR 0xE2, CHR 0x80, CHR 0x88], [CHR 0xE2, CHR 0x80, CHR 0x89],
      [CHR 0xE2, CHR 0x80, CHR 0x8A],
      [CHR 0xE2, CHR 0x80, CHR 0xA8], [CHR 0xE2, CHR 0x80, CHR 0xA9],
      [CHR 0xE2, CHR 0x80, CHR 0xAF],
      [CHR 0xE2, CHR 0x81, CHR 0x9F],
      [CHR 0xE3, CHR 0x80, CHR 0x80],
      [CHR 0xEF, CHR 0xBB, CHR 0xBF]]"

function trimStart :: "string \<Rightarrow> string" where
  "trimStart s =
     (case find (\<lambda>w. prefix w s) WhiteSpace of
        None \<Rightarrow> s
      | Some w \<Rightarrow> trimStart (drop (length w) s))"
  by pat_completeness auto
termination
proof (relation "measure length")
  show "wf (measure length)" by simp
next
  fix s w
  assume "find (\<lambda>w. prefix w s) WhiteSpace = Some w"
  then have "w \<in> set WhiteSpace" and p: "prefix w s"
    by (auto simp: find_Some_iff)
  then have "w \<noteq> []" by (auto simp: WhiteSpace_def)
  with p have "length s - length w < length s"
    by (cases w) (auto dest: prefix_length_le)
  then show "(drop (length w) s, s) \<in> measure length" by simp
qed

declare trimStart.simps [simp del]

function trimEnd :: "string \<Rightarrow> string" where
  "trimEnd s =
     (case find (\<lambda>w. suffix w s) WhiteSpace of
        None \<Rightarrow> s
      | Some w \<Rightarrow> trimEnd (take (length s - length w) s))"
  by pat_completeness auto
termination
proof (relation "measure length")
  show "wf (measure length)" by simp
next
  fix s w
  assume "find (\<lambda>w. suffix w s) WhiteSpace = Some w"
  then have "w \<in> set WhiteSpace" and p: "suffix w s"
    by (auto simp: find_Some_iff)
  then have "w \<noteq> []" by (auto simp: WhiteSpace_def)
  with p have "length s - length w < length s" and "length w \<le> length s"
    by (cases w; auto dest: suffix_length_le)+
  then show "(take (length s - length w) s, s) \<in> measure length" by simp
qed

declare trimEnd.simps [simp del]

definition trim :: "string \<Rightarrow> string" where
  "trim s = trimEnd (trimStart s)"

text \<open>
  Truthiness of a value of type \<open>string | undefined | null\<close>: \<open>!x\<close> holds for
  \<open>undefined\<close>, \<open>null\<close> and the empty string.
\<close>

definition truthy :: "string option \<Rightarrow> bool" where
  "truthy x = (case x of None \<Rightarrow> False | Some s \<Rightarrow> s \<noteq> [])"

text \<open>\<open>s.replace(/^p/, "")\<close> for a literal prefix \<open>p\<close>.\<close>

definition replace_prefix :: "string \<Rightarrow> string \<Rightarrow> string" where
  "replace_prefix p s = (if prefix p s then drop (length p) s else s)"

text \<open>Decimal rendering of a counter inside a template literal.\<close>

fun string_of_nat :: "nat \<Rightarrow> string" where
  "string_of_nat n =
     (if n < 10 then [''0123456789'' ! n]
      else string_of_nat (n div 10) @ [''0123456789'' ! (n mod 10)])"

declare string_of_nat.simps [simp del]

text \<open>\<open>xs.join(sep)\<close>\<close>

fun join :: "string \<Rightarrow> string list \<Rightarrow> string" where
  "join sep [] = []"
| "join sep [x] = x"
| "join sep (x # y # ys) = x @ sep @ join sep (y # ys)"

subsection \<open>The regular expressions of the source\<close>

text \<open>
  \<open>/\$prefix\(([^)]+)\)/\<close> and \<open>/\$eq\(([^)]+)\)/\<close> have the shape
  \<open>tok ([^)]+) \)\<close> for a literal \<open>tok\<close>. The group is greedy and cannot hold a closing
  parenthesis, so an attempt anchored at the start of \<open>s\<close> succeeds exactly when
  \<open>tok\<close> is followed by a non-empty run of characters other than \<open>)\<close> and that run is
  followed by \<open>)\<close>; the group is the whole run.
\<close>

definition match_call_here :: "string \<Rightarrow> string \<Rightarrow> string option" where
  "match_call_here tok s =
     (if prefix tok s then
        (let rest = drop (length tok) s;
             arg = takeWhile (\<lambda>c. c \<noteq> CHR '')'') rest
         in if arg \<noteq> [] \<and> length arg < length rest then Some arg else None)
      else None)"

text \<open>
  \<open>s.match(re)\<close> without the \<open>g\<close> flag tries every start position from the left;
  the value is capture group 1 of the first position that matches (\<open>None\<close> for
  \<open>null\<close>).
\<close>

fun match_call :: "string \<Rightarrow> string \<Rightarrow> string option" where
  "match_call tok [] = match_call_here tok []"
| "match_call tok (c # cs) =
     (case match_call_here tok (c # cs) of
        Some arg \<Rightarrow> Some arg
      | None \<Rightarrow> match_call tok cs)"

text \<open>
  \<open>/\{([^}]+)\}/\<close> anchored at the start of \<open>s\<close>: the text between the braces
  and what follows the closing brace.
\<close>

definition match_brace_here :: "string \<Rightarrow> (string \<times> string) option" where
  "match_brace_here s =
     (case s of
        [] \<Rightarrow> None
      | c # rest \<Rightarrow>
          if c = CHR ''{'' then
            (let inner = takeWhile (\<lambda>c. c \<noteq> CHR ''}'') rest;
                 after = dropWhile (\<lambda>c. c \<noteq> CHR ''}'') rest
             in if inner \<noteq> [] \<and> after \<noteq> [] then Some (inner, tl after) else None)
          else None)"

text \<open>First match, capture group 1.\<close>

fun match_brace :: "string \<Rightarrow> string option" where
  "match_brace [] = None"
| "match_brace (c # cs) =
     (case match_brace_here (c # cs) of
        Some (inner, after) \<Rightarrow> Some inner
      | None \<Rightarrow> match_brace cs)"

text \<open>
  \<open>s.match(re)\<close> with the \<open>g\<close> flag: every match from left to right, each search
  starting where the previous match ended; the value is the list of whole matches
  (the empty list stands for \<open>null\<close>).
\<close>

function match_brace_all :: "string \<Rightarrow> string list" where
  "match_brace_all [] = []"
| "match_brace_all (c # cs) =
     (case match_brace_here (c # cs) of
        Some (inner, after) \<Rightarrow> (CHR ''{'' # inner @ ''}'') # match_brace_all after
      | None \<Rightarrow> match_brace_all cs)"
  by pat_completeness auto
termination
proof (relation "measure length")
  show "wf (measure length)" by simp
next
  fix c :: char and cs x2 inner after
  assume "match_brace_here (c # cs) = Some x2" and "(inner, after) = x2"
  then have "after = tl (dropWhile (\<lambda>c. c \<noteq> CHR ''}'') cs)"
    by (auto simp: match_brace_here_def Let_def split: if_splits)
  moreover have "length (dropWhile (\<lambda>c. c \<noteq> CHR ''}'') cs) \<le> length cs"
    by (rule length_dropWhile_le)
  ultimately show "(after, c # cs) \<in> measure length" by simp
next
  fix c :: char and cs
  show "(cs, c # cs) \<in> measure length" by simp
qed

text \<open>\<open>m.slice(1, -1)\<close>\<close>

definition slice_1_m1 :: "string \<Rightarrow> string" where
  "slice_1_m1 m = butlast (tl m)"

section \<open>Condition translator\<close>

text \<open>\<open>convertConditionToMatcher\<close>\<close>

definition convertConditionToMatcher :: "string option \<Rightarrow> string" where
  "convertConditionToMatcher condition =
     (case condition of
        None \<Rightarrow> ''isNotNull(metric.key)''
      | Some c \<Rightarrow>
          if c = [] \<or> trim c = [] then ''isNotNull(metric.key)''
          else (case match_call ''$prefix('' c of
                  Some pre \<Rightarrow> ''matchesValue(metric.key, \"'' @ pre @ ''*\")''
                | None \<Rightarrow>
                    (case match_call ''$eq('' c of
                       Some v \<Rightarrow> ''metric.key == \"'' @ v @ ''\"''
                     | None \<Rightarrow>
                         if sublist ''$exists()'' c then ''isNotNull(metric.key)''
                         else ''matchesValue(metric.key, \"'' @ c @ ''\")'')))"

text \<open>
  \<open>convertRequiredDimensionsToMatcher\<close>. A dimension is \<open>{ key, valuePattern? }\<close>,
  as the parameter type of the function says.
\<close>

record Dimension =
  key :: string
  valuePattern :: "string option"

text \<open>The \<open>for\<close> loop, with the array \<open>conditions\<close> it pushes to.\<close>

fun requiredDimensions_loop :: "Dimension list \<Rightarrow> string list \<Rightarrow> string list" where
  "requiredDimensions_loop [] conditions = conditions"
| "requiredDimensions_loop (dim # dims) conditions =
     (case valuePattern dim of
        None \<Rightarrow>
          requiredDimensions_loop dims (conditions @ [''isNotNull('' @ Dimension.key dim @ '')''])
      | Some vp \<Rightarrow>
          if vp = [] then
            requiredDimensions_loop dims (conditions @ [''isNotNull('' @ Dimension.key dim @ '')''])
          else
            (case match_call ''$eq('' vp of
               Some v \<Rightarrow>
                 requiredDimensions_loop dims
                   (conditions @ [Dimension.key dim @ '' == \"'' @ v @ ''\"''])
             | None \<Rightarrow>
                 (case match_call ''$prefix('' vp of
                    Some pre \<Rightarrow>
                      requiredDimensions_loop dims
                        (conditions @
                           [''matchesValue('' @ Dimension.key dim @ '', \"'' @ pre @ ''*\")''])
                  | None \<Rightarrow>
                      requiredDimensions_loop dims
                        (conditions @ [Dimension.key dim @ '' == \"'' @ vp @ ''\"'']))))"

definition convertRequiredDimensionsToMatcher :: "Dimension list option \<Rightarrow> string" where
  "convertRequiredDimensionsToMatcher requiredDimensions =
     (case requiredDimensions of
        None \<Rightarrow> ''isNotNull(content)''
      | Some dims \<Rightarrow>
          if length dims = 0 then ''isNotNull(content)''
          else join '' and '' (requiredDimensions_loop dims []))"

text \<open>
  \<open>findMatchingMetric\<close>. Of a metric of the catalog only its \<open>key\<close> is read.
  \<open>metrics.find(p)\<close> is the first element that satisfies \<open>p\<close>.
\<close>

record MetricMetadata =
  key :: string

definition findMatchingMetric :: "string option \<Rightarrow> MetricMetadata list option \<Rightarrow> string option" where
  "findMatchingMetric condition metrics =
     (case condition of
        None \<Rightarrow> None
      | Some c \<Rightarrow>
          if c = [] then None
          else (case metrics of
                  None \<Rightarrow> None
                | Some ms \<Rightarrow>
                    if length ms = 0 then None
                    else (case match_call ''$prefix('' c of
                            Some pre \<Rightarrow>
                              (case find (\<lambda>m. prefix pre (MetricMetadata.key m)) ms of
                                 Some m \<Rightarrow> Some (MetricMetadata.key m)
                               | None \<Rightarrow> None)
                          | None \<Rightarrow>
                              (case match_call ''$eq('' c of
                                 Some exactKey \<Rightarrow>
                                   (case find (\<lambda>m. MetricMetadata.key m = exactKey) ms of
                                      Some m \<Rightarrow> Some (MetricMetadata.key m)
                                    | None \<Rightarrow> None)
                               | None \<Rightarrow>
                                   if sublist ''$exists()'' c then
                                     (case ms of
                                        [] \<Rightarrow> None
                                      | m # _ \<Rightarrow> Some (MetricMetadata.key m))
                                   else None))))"

section \<open>Name resolver\<close>

text \<open>\<open>suggestNewTypeName\<close>\<close>

definition suggestNewTypeName :: "string \<Rightarrow> string" where
  "suggestNewTypeName currentName = replace_all_char CHR '':'' CHR ''_'' (toUpperCase currentName)"

text \<open>\<open>cleanExtensionName\<close>: three \<open>replace\<close> calls, each on the value of the one before.\<close>

definition cleanExtensionName :: "string \<Rightarrow> string" where
  "cleanExtensionName extensionName =
     replace_prefix ''custom:''
       (replace_prefix ''com.dynatrace.''
          (replace_prefix ''custom:com.dynatrace.'' extensionName))"

section \<open>Identity extractor\<close>

text \<open>\<open>extractIdComponentsFromPattern\<close>\<close>

definition extractIdComponentsFromPattern :: "string \<Rightarrow> string list" where
  "extractIdComponentsFromPattern idPattern = map slice_1_m1 (match_brace_all idPattern)"

text \<open>\<open>sanitizeIdComponentName\<close>\<close>

definition sanitizeIdComponentName :: "string \<Rightarrow> string" where
  "sanitizeIdComponentName fieldName = replace_all_char CHR ''.'' CHR ''_'' (toLowerCase fieldName)"

text \<open>\<open>extractFieldNameFromPattern\<close>\<close>

definition extractFieldNameFromPattern :: "string \<Rightarrow> string" where
  "extractFieldNameFromPattern pattern =
     (case match_brace pattern of Some fieldName \<Rightarrow> fieldName | None \<Rightarrow> pattern)"

section \<open>Values that are no strings\<close>

text \<open>
  The object literal \<open>RELATIONSHIP_TYPE_MAPPING\<close> of the source has the type
  \<open>Record<string, string>\<close>, so the source takes the value of
  \<open>RELATIONSHIP_TYPE_MAPPING[k]\<close> for a string or \<open>undefined\<close>. By ECMAScript the value
  is, for a name \<open>k\<close> that every object inherits from \<open>Object.prototype\<close>, the inherited
  member: a function, or for \<open>__proto__\<close> the prototype itself. \<open>Inherited k\<close> is that
  member, for the twelve names of \<open>Object_prototype_properties\<close>; it is truthy. The
  edge type of a relationship is the one place of the source that such a value can
  reach, so the edge type is a \<open>JsValue\<close> and every other string of the source is a
  \<^typ>\<open>string\<close>.
\<close>

datatype JsValue = Text string | Inherited string

definition Object_prototype_properties :: "string list" where
  "Object_prototype_properties =
     [''constructor'', ''hasOwnProperty'', ''isPrototypeOf'', ''propertyIsEnumerable'',
      ''toLocaleString'', ''toString'', ''valueOf'', ''__proto__'', ''__defineGetter__'',
      ''__defineSetter__'', ''__lookupGetter__'', ''__lookupSetter__'']"

text \<open>
  \<open>${v}\<close> inside a template literal. Node.js renders a built-in function as
  \<open>function name() { [native code] }\<close>, the function \<open>constructor\<close> is named \<open>Object\<close>,
  and an object without a \<open>toString\<close> of its own is rendered as \<open>[object Object]\<close>.
\<close>

definition templateText :: "JsValue \<Rightarrow> string" where
  "templateText v =
     (case v of
        Text x \<Rightarrow> x
      | Inherited k \<Rightarrow>
          if k = ''__proto__'' then ''[object Object]''
          else ''function '' @ (if k = ''constructor'' then ''Object'' else k) @
               ''() { [native code] }'')"

section \<open>Data model\<close>

text \<open>
  Modelled from the spec: the interfaces \<open>TopologyType\<close>, \<open>MetricMetadata\<close>,
  \<open>ExtensionStub\<close>, \<open>OpenPipelineProcessor\<close>, \<open>OpenPipelinePipeline\<close> and
  \<open>OpenPipeline\<close> are imported by the source from modules outside it. The records below
  have the fields the source reads and writes, optional where the source tests for
  absence (\<open>if (rule.idPattern)\<close>, \<open>rule.attributes ?? []\<close>, \<open>condition?: string\<close>).
  Fields of different records that share a name are told apart by the record's name,
  as in \<open>Source.sourceType\<close>; a parameter or local variable of the source whose
  name is also a field name carries a prime (\<open>matcher'\<close>); the fields \<open>id\<close>, \<open>type\<close> and \<open>constant\<close> are
  written \<open>id'\<close>, \<open>type'\<close> and \<open>constant'\<close>.
\<close>

record Source =
  sourceType :: string
  condition :: "string option"

record Attribute =
  key :: string
  pattern :: string

record Rule =
  idPattern :: "string option"
  instanceNamePattern :: "string option"
  requiredDimensions :: "Dimension list option"
  attributes :: "Attribute list option"
  sources :: "Source list"

record TopologyType =
  name :: string
  displayName :: string
  rules :: "Rule list"

record Relationship =
  fromType :: string
  toType :: string
  typeOfRelation :: string
  sources :: "Source list"

record IdComponent =
  idComponent :: string
  referencedFieldName :: string

record FieldToExtract =
  fieldName :: string
  referencedFieldName :: string

record NodeNameField =
  sourceFieldName :: string
  defaultValue :: string

record NodeName =
  type' :: string
  constant' :: "string option"
  field :: "NodeNameField option"

record SmartscapeNode =
  nodeType :: string
  nodeIdFieldName :: string
  idComponents :: "IdComponent list"
  extractNode :: bool
  nodeName :: NodeName
  fieldsToExtract :: "FieldToExtract list option"

record SmartscapeEdge =
  sourceType :: string
  sourceIdFieldName :: string
  edgeType :: JsValue
  targetType :: string
  targetIdFieldName :: string

record OpenPipelineProcessor =
  id' :: string
  type' :: string
  matcher :: string
  description :: string
  smartscapeNode :: "SmartscapeNode option"
  smartscapeEdge :: "SmartscapeEdge option"

section \<open>Processors\<close>

definition BLOCKED_FIELDS :: "string list" where
  "BLOCKED_FIELDS = [''dt.security_context'']"

text \<open>\<open>extractNodeNameFromPattern\<close>\<close>

definition extractNodeNameFromPattern :: "string option \<Rightarrow> string \<Rightarrow> NodeName" where
  "extractNodeNameFromPattern instanceNamePattern' defaultValue' =
     (case instanceNamePattern' of
        None \<Rightarrow> \<lparr>NodeName.type' = ''constant'', constant' = Some defaultValue', field = None\<rparr>
      | Some p \<Rightarrow>
          if p = [] then
            \<lparr>NodeName.type' = ''constant'', constant' = Some defaultValue', field = None\<rparr>
          else
            (case match_brace p of
               Some fieldName' \<Rightarrow>
                 \<lparr>NodeName.type' = ''field'', constant' = None,
                  field = Some \<lparr>sourceFieldName = fieldName',
                                NodeNameField.defaultValue = defaultValue'\<rparr>\<rparr>
             | None \<Rightarrow>
                 \<lparr>NodeName.type' = ''constant'', constant' = Some p, field = None\<rparr>))"

text \<open>
  \<open>createSmartscapeNodeProcessor\<close>. The three assignments to \<open>idComponents\<close> are
  the three \<open>let\<close> bindings, in the order of the source.
\<close>

definition createSmartscapeNodeProcessor ::
  "TopologyType \<Rightarrow> string \<Rightarrow> Source \<Rightarrow> Rule \<Rightarrow> bool \<Rightarrow> string \<Rightarrow> nat \<Rightarrow> OpenPipelineProcessor" where
  "createSmartscapeNodeProcessor type newName source rule extractNode' matcher' counter =
     (let idComponents0 = [];
          idComponents1 =
            (case idPattern rule of
               None \<Rightarrow> idComponents0
             | Some p \<Rightarrow>
                 if p = [] then idComponents0
                 else map (\<lambda>fieldName'.
                        \<lparr>idComponent = sanitizeIdComponentName fieldName',
                         IdComponent.referencedFieldName = fieldName'\<rparr>)
                      (extractIdComponentsFromPattern p));
          idComponents2 =
            (case requiredDimensions rule of
               None \<Rightarrow> idComponents1
             | Some dims \<Rightarrow>
                 if length idComponents1 = 0 then
                   map (\<lambda>dim.
                     \<lparr>idComponent = sanitizeIdComponentName (Dimension.key dim),
                      IdComponent.referencedFieldName = Dimension.key dim\<rparr>) dims
                 else idComponents1);
          idComponents3 =
            (if length idComponents2 = 0 then
               (let defaultIdKey = toLowerCase (name type) @ ''.id''
                in [\<lparr>idComponent = sanitizeIdComponentName defaultIdKey,
                     IdComponent.referencedFieldName = defaultIdKey\<rparr>])
             else idComponents2);
          fieldsToExtract' =
            map (\<lambda>attr.
                  \<lparr>fieldName = Attribute.key attr,
                   FieldToExtract.referencedFieldName =
                     extractFieldNameFromPattern (pattern attr)\<rparr>)
              (filter (\<lambda>attr. Attribute.key attr \<notin> set BLOCKED_FIELDS)
                 (case attributes rule of None \<Rightarrow> [] | Some as \<Rightarrow> as));
          processorId =
            newName @ ''_'' @ (if extractNode' then ''node'' else ''entity'') @ ''_'' @
            Source.sourceType source @ ''_'' @ string_of_nat counter;
          description' =
            (if extractNode' then ''Extract node for '' @ displayName type
             else ''Create entity for '' @ displayName type);
          nodeName' = extractNodeNameFromPattern (instanceNamePattern rule) newName
      in \<lparr>id' = processorId,
          OpenPipelineProcessor.type' = ''smartscapeNode'',
          matcher = matcher',
          description = description',
          smartscapeNode =
            Some \<lparr>nodeType = newName,
                  nodeIdFieldName = ''node_id'',
                  idComponents = idComponents3,
                  extractNode = extractNode',
                  nodeName = nodeName',
                  fieldsToExtract =
                    (if length fieldsToExtract' > 0 then Some fieldsToExtract' else None)\<rparr>,
          smartscapeEdge = None\<rparr>)"

text \<open>\<open>createSmartscapeEdgeProcessor\<close>\<close>

definition createSmartscapeEdgeProcessor ::
  "string \<Rightarrow> string \<Rightarrow> JsValue \<Rightarrow> string \<Rightarrow> Source \<Rightarrow> nat \<Rightarrow> OpenPipelineProcessor" where
  "createSmartscapeEdgeProcessor sourceType' targetType' edgeType' matcher' source counter =
     (let processorId =
            sourceType' @ ''_to_'' @ targetType' @ ''_'' @ templateText edgeType' @ ''_'' @
            Source.sourceType source @ ''_'' @ string_of_nat counter;
          description' =
            ''Create '' @ templateText edgeType' @ '' relationship from '' @ sourceType' @
            '' to '' @ targetType'
      in \<lparr>id' = processorId,
          OpenPipelineProcessor.type' = ''smartscapeEdge'',
          matcher = matcher',
          description = description',
          smartscapeNode = None,
          smartscapeEdge =
            Some \<lparr>SmartscapeEdge.sourceType = sourceType',
                  sourceIdFieldName = ''node_id'',
                  edgeType = edgeType',
                  targetType = targetType',
                  targetIdFieldName = ''node_id''\<rparr>\<rparr>)"

section \<open>The Resolution Port\<close>

text \<open>
  \<open>InputCallback\<close> is a function from a prompt and a suggested value to an answer,
  \<open>null\<close> when the user cancels. A user may answer the same prompt differently each
  time, so the callback reads and changes a state of its own, of any type \<open>'s\<close>; the
  compiler threads that state through its calls in the order the source awaits them.
\<close>

type_synonym 's InputCallback = "'s \<Rightarrow> string \<Rightarrow> string \<Rightarrow> string option \<times> 's"

text \<open>
  The edge compiler hands the callback an inherited member where
  \<open>RELATIONSHIP_TYPE_MAPPING[k]\<close> is one. The type \<open>InputCallback\<close> says what a callback
  answers to a string. What it answers to a member is a second function of the model,
  which is given the name of the member: no answer, a string, or a value that is no
  string, such as the member itself.
\<close>

type_synonym 's InheritedCallback = "'s \<Rightarrow> string \<Rightarrow> string \<Rightarrow> JsValue option \<times> 's"

text \<open>\<open>autoInputCallback\<close> returns what it is given, a string or a member.\<close>

definition autoInputCallback :: "'s InputCallback" where
  "autoInputCallback s prompt suggestedValue = (Some suggestedValue, s)"

definition autoInputCallback_inherited :: "'s InheritedCallback" where
  "autoInputCallback_inherited s prompt suggestedValue = (Some (Inherited suggestedValue), s)"

text \<open>
  The source throws \<open>Error\<close> with three messages: \<open>Extension does not have a topology
  section.\<close>, \<open>User cancelled the operation\<close> and \<open>Unknown relationship type: ...\<close>.
\<close>

datatype error =
  MissingTopology
| UserCancelled
| UnknownRelationshipType string

text \<open>
  The recurring step
  \<^verbatim>\<open>const x = await inputCallback(prompt, suggested); if (!x) throw Error("User cancelled the operation");\<close>
\<close>

definition awaitInput ::
  "'s InputCallback \<Rightarrow> string \<Rightarrow> string \<Rightarrow> 's \<Rightarrow> (error + string) \<times> 's" where
  "awaitInput inputCallback prompt suggestedValue s =
     (case inputCallback s prompt suggestedValue of
        (None, s') \<Rightarrow> (Inl UserCancelled, s')
      | (Some x, s') \<Rightarrow> if x = [] then (Inl UserCancelled, s') else (Inr x, s'))"

text \<open>The same step where the suggested value may be an inherited member.\<close>

definition awaitInputValue ::
  "'s InputCallback \<Rightarrow> 's InheritedCallback \<Rightarrow> string \<Rightarrow> JsValue \<Rightarrow> 's \<Rightarrow>
   (error + JsValue) \<times> 's" where
  "awaitInputValue inputCallback inputCallbackInherited prompt suggestedValue s =
     (case suggestedValue of
        Text v \<Rightarrow>
          (case awaitInput inputCallback prompt v s of
             (Inl e, s') \<Rightarrow> (Inl e, s')
           | (Inr x, s') \<Rightarrow> (Inr (Text x), s'))
      | Inherited k \<Rightarrow>
          (case inputCallbackInherited s prompt k of
             (None, s') \<Rightarrow> (Inl UserCancelled, s')
           | (Some (Text x), s') \<Rightarrow>
               if x = [] then (Inl UserCancelled, s') else (Inr (Text x), s')
           | (Some (Inherited k'), s') \<Rightarrow> (Inr (Inherited k'), s')))"

section \<open>Node compiler\<close>

text \<open>
  \<open>processMetricsSource\<close>. The value is the array \<open>processors\<close> and the set
  \<open>entityTypesWithNodeExtraction\<close> as the call leaves it.
\<close>

definition processMetricsSource ::
  "TopologyType \<Rightarrow> string \<Rightarrow> Source \<Rightarrow> Rule \<Rightarrow> MetricMetadata list option \<Rightarrow> 's InputCallback \<Rightarrow>
   nat \<Rightarrow> string set \<Rightarrow> 's \<Rightarrow> (error + OpenPipelineProcessor list \<times> string set) \<times> 's" where
  "processMetricsSource type newName source rule metrics inputCallback processorCounter
       typesWithNodeExtraction s =
     (let suggestedEntityMatcher = convertConditionToMatcher (condition source) in
      case awaitInput inputCallback
             (''Enter matcher condition for entity extraction (extractNode: false) for \"'' @
              displayName type @ ''\"'')
             suggestedEntityMatcher s of
        (Inl e, s1) \<Rightarrow> (Inl e, s1)
      | (Inr entityMatcher, s1) \<Rightarrow>
          let entityProcessor =
                createSmartscapeNodeProcessor type newName source rule False entityMatcher
                  processorCounter
          in if newName \<notin> typesWithNodeExtraction then
               (let matchingMetric = findMatchingMetric (condition source) metrics;
                    suggestedNodeMatcher =
                      (case matchingMetric of
                         None \<Rightarrow> suggestedEntityMatcher
                       | Some k \<Rightarrow>
                           if k = [] then suggestedEntityMatcher
                           else ''matchesValue(metric.key, \"'' @ k @ ''\")'')
                in case awaitInput inputCallback
                          (''Enter matcher condition for node extraction (extractNode: true) for \"'' @
                           displayName type @ ''\"'')
                          suggestedNodeMatcher s1 of
                     (Inl e, s2) \<Rightarrow> (Inl e, s2)
                   | (Inr nodeMatcher, s2) \<Rightarrow>
                       (Inr ([entityProcessor,
                              createSmartscapeNodeProcessor type newName source rule True
                                nodeMatcher (processorCounter + 1)],
                             insert newName typesWithNodeExtraction), s2))
             else (Inr ([entityProcessor], typesWithNodeExtraction), s1))"

text \<open>\<open>processLogsSource\<close>\<close>

definition processLogsSource ::
  "TopologyType \<Rightarrow> string \<Rightarrow> Source \<Rightarrow> Rule \<Rightarrow> 's InputCallback \<Rightarrow>
   nat \<Rightarrow> string set \<Rightarrow> 's \<Rightarrow> (error + OpenPipelineProcessor list \<times> string set) \<times> 's" where
  "processLogsSource type newName source rule inputCallback processorCounter
       typesWithNodeExtraction s =
     (let suggestedEntityMatcher = convertRequiredDimensionsToMatcher (requiredDimensions rule) in
      case awaitInput inputCallback
             (''Enter matcher condition for entity extraction (extractNode: false) for \"'' @
              displayName type @ ''\" (Logs)'')
             suggestedEntityMatcher s of
        (Inl e, s1) \<Rightarrow> (Inl e, s1)
      | (Inr entityMatcher, s1) \<Rightarrow>
          let entityProcessor =
                createSmartscapeNodeProcessor type newName source rule False entityMatcher
                  processorCounter
          in if newName \<notin> typesWithNodeExtraction then
               (case awaitInput inputCallback
                       (''Enter matcher condition for node extraction (extractNode: true) for \"'' @
                        displayName type @ ''\" (Logs)'')
                       suggestedEntityMatcher s1 of
                  (Inl e, s2) \<Rightarrow> (Inl e, s2)
                | (Inr nodeMatcher, s2) \<Rightarrow>
                    (Inr ([entityProcessor,
                           createSmartscapeNodeProcessor type newName source rule True
                             nodeMatcher (processorCounter + 1)],
                          insert newName typesWithNodeExtraction), s2))
             else (Inr ([entityProcessor], typesWithNodeExtraction), s1))"

text \<open>
  The value of \<open>createProcessorsFromTopology\<close> and of
  \<open>createProcessorsFromRelationships\<close>, and the local variables of their loops.
\<close>

record ProcessorLists =
  metricsProcessors :: "OpenPipelineProcessor list"
  logsProcessors :: "OpenPipelineProcessor list"

record EdgeLoop = ProcessorLists +
  metricsCounter :: nat
  logsCounter :: nat

record NodeLoop = EdgeLoop +
  entityTypesWithNodeExtraction :: "string set"

text \<open>\<open>for (const source of rule.sources)\<close> of \<open>createProcessorsFromTopology\<close>\<close>

fun ruleSources_loop ::
  "TopologyType \<Rightarrow> string \<Rightarrow> Rule \<Rightarrow> Source list \<Rightarrow> MetricMetadata list option \<Rightarrow>
   's InputCallback \<Rightarrow> NodeLoop \<Rightarrow> 's \<Rightarrow> (error + NodeLoop) \<times> 's" where
  "ruleSources_loop type newName rule [] metrics inputCallback st s = (Inr st, s)"
| "ruleSources_loop type newName rule (source # rest) metrics inputCallback st s =
     (if Source.sourceType source = ''Metrics'' then
        (case processMetricsSource type newName source rule metrics inputCallback
                (metricsCounter st) (entityTypesWithNodeExtraction st) s of
           (Inl e, s') \<Rightarrow> (Inl e, s')
         | (Inr (processors, withNode), s') \<Rightarrow>
             ruleSources_loop type newName rule rest metrics inputCallback
               (st\<lparr>metricsProcessors := metricsProcessors st @ processors,
                   metricsCounter := metricsCounter st + length processors,
                   entityTypesWithNodeExtraction := withNode\<rparr>) s')
      else if Source.sourceType source = ''Logs'' then
        (case processLogsSource type newName source rule inputCallback
                (logsCounter st) (entityTypesWithNodeExtraction st) s of
           (Inl e, s') \<Rightarrow> (Inl e, s')
         | (Inr (processors, withNode), s') \<Rightarrow>
             ruleSources_loop type newName rule rest metrics inputCallback
               (st\<lparr>logsProcessors := logsProcessors st @ processors,
                   logsCounter := logsCounter st + length processors,
                   entityTypesWithNodeExtraction := withNode\<rparr>) s')
      else ruleSources_loop type newName rule rest metrics inputCallback st s)"

text \<open>\<open>for (const rule of type.rules)\<close>\<close>

fun typeRules_loop ::
  "TopologyType \<Rightarrow> string \<Rightarrow> Rule list \<Rightarrow> MetricMetadata list option \<Rightarrow>
   's InputCallback \<Rightarrow> NodeLoop \<Rightarrow> 's \<Rightarrow> (error + NodeLoop) \<times> 's" where
  "typeRules_loop type newName [] metrics inputCallback st s = (Inr st, s)"
| "typeRules_loop type newName (rule # rest) metrics inputCallback st s =
     (case ruleSources_loop type newName rule (Rule.sources rule) metrics inputCallback st s of
        (Inl e, s') \<Rightarrow> (Inl e, s')
      | (Inr st', s') \<Rightarrow> typeRules_loop type newName rest metrics inputCallback st' s')"

text \<open>
  \<open>for (const type of types)\<close>. The optional \<open>typeNameMapping\<close> is changed in place
  by the source, so it is part of the state that the loop returns, also when it throws.
\<close>

fun topologyTypes_loop ::
  "TopologyType list \<Rightarrow> MetricMetadata list option \<Rightarrow> 's InputCallback \<Rightarrow> NodeLoop \<Rightarrow>
   (string \<rightharpoonup> string) option \<Rightarrow> 's \<Rightarrow> (error + NodeLoop) \<times> (string \<rightharpoonup> string) option \<times> 's" where
  "topologyTypes_loop [] metrics inputCallback st typeNameMapping s = (Inr st, typeNameMapping, s)"
| "topologyTypes_loop (type # rest) metrics inputCallback st typeNameMapping s =
     (case awaitInput inputCallback (''Enter new name for type \"'' @ name type @ ''\"'')
             (suggestNewTypeName (name type)) s of
        (Inl e, s1) \<Rightarrow> (Inl e, typeNameMapping, s1)
      | (Inr newName, s1) \<Rightarrow>
          let typeNameMapping1 =
                (case typeNameMapping of
                   None \<Rightarrow> None
                 | Some m \<Rightarrow> Some (m(name type \<mapsto> newName)))
          in case typeRules_loop type newName (rules type) metrics inputCallback st s1 of
               (Inl e, s2) \<Rightarrow> (Inl e, typeNameMapping1, s2)
             | (Inr st', s2) \<Rightarrow>
                 topologyTypes_loop rest metrics inputCallback st' typeNameMapping1 s2)"

text \<open>\<open>createProcessorsFromTopology\<close>\<close>

definition createProcessorsFromTopology ::
  "TopologyType list \<Rightarrow> MetricMetadata list option \<Rightarrow> 's InputCallback \<Rightarrow>
   (string \<rightharpoonup> string) option \<Rightarrow> 's \<Rightarrow>
   (error + ProcessorLists) \<times> (string \<rightharpoonup> string) option \<times> 's" where
  "createProcessorsFromTopology types metrics inputCallback typeNameMapping s =
     (case topologyTypes_loop types metrics inputCallback
             \<lparr>metricsProcessors = [], logsProcessors = [], metricsCounter = 0, logsCounter = 0,
              entityTypesWithNodeExtraction = {}\<rparr>
             typeNameMapping s of
        (Inl e, m, s') \<Rightarrow> (Inl e, m, s')
      | (Inr st, m, s') \<Rightarrow>
          (Inr \<lparr>metricsProcessors = metricsProcessors st, logsProcessors = logsProcessors st\<rparr>,
           m, s'))"

section \<open>Edge compiler\<close>

definition RELATIONSHIP_TYPE_MAPPING :: "(string \<times> string) list" where
  "RELATIONSHIP_TYPE_MAPPING =
     [(''CHILD_OF'', ''belongs_to''),
      (''RUNS_ON'', ''runs_on''),
      (''INSTANCE_OF'', ''instance_of''),
      (''PART_OF'', ''is_part_of''),
      (''CALLS'', ''calls''),
      (''SAME_AS'', ''same_as'')]"

text \<open>
  \<open>RELATIONSHIP_TYPE_MAPPING[k]\<close>: the own property \<open>k\<close>, else the member \<open>k\<close> of
  \<open>Object.prototype\<close>, else \<open>undefined\<close>.
\<close>

definition RELATIONSHIP_TYPE_MAPPING_index :: "string \<Rightarrow> JsValue option" where
  "RELATIONSHIP_TYPE_MAPPING_index k =
     (case map_of RELATIONSHIP_TYPE_MAPPING k of
        Some v \<Rightarrow> Some (Text v)
      | None \<Rightarrow> if k \<in> set Object_prototype_properties then Some (Inherited k) else None)"

text \<open>\<open>!v\<close> for such a value.\<close>

definition falsy :: "JsValue option \<Rightarrow> bool" where
  "falsy v = (case v of None \<Rightarrow> True | Some (Text x) \<Rightarrow> x = [] | Some (Inherited k) \<Rightarrow> False)"

text \<open>The UTF-8 bytes of the arrow U+2192 in the prompts of the edge compiler.\<close>

definition arrow :: string where
  "arrow = [CHR 0xE2, CHR 0x86, CHR 0x92]"

text \<open>
  The two blocks that open the body of the loop of \<open>createProcessorsFromRelationships\<close>,
  \<^verbatim>\<open>let n = typeNameMapping.get(t); if (!n) { ask; throw if cancelled; n = userInput; typeNameMapping.set(t, n); }\<close>
  They differ in the word \<open>source\<close> or \<open>target\<close> of the prompt only, which is \<open>role\<close>.
\<close>

definition lookupOrAskTypeName ::
  "string \<Rightarrow> string \<Rightarrow> (string \<rightharpoonup> string) \<Rightarrow> 's InputCallback \<Rightarrow> 's \<Rightarrow>
   (error + string) \<times> (string \<rightharpoonup> string) \<times> 's" where
  "lookupOrAskTypeName role typeName typeNameMapping inputCallback s =
     (let asked =
            (case awaitInput inputCallback
                    (''Enter new name for '' @ role @ '' type \"'' @ typeName @ ''\"'')
                    (suggestNewTypeName typeName) s of
               (Inl e, s') \<Rightarrow> (Inl e, typeNameMapping, s')
             | (Inr userInput, s') \<Rightarrow>
                 (Inr userInput, typeNameMapping(typeName \<mapsto> userInput), s'))
      in case typeNameMapping typeName of
           None \<Rightarrow> asked
         | Some n \<Rightarrow> if n = [] then asked else (Inr n, typeNameMapping, s))"

text \<open>\<open>processMetricsRelationship\<close>\<close>

definition processMetricsRelationship ::
  "Relationship \<Rightarrow> string \<Rightarrow> string \<Rightarrow> JsValue \<Rightarrow> Source \<Rightarrow> 's InputCallback \<Rightarrow> nat \<Rightarrow> 's \<Rightarrow>
   (error + OpenPipelineProcessor) \<times> 's" where
  "processMetricsRelationship relationship fromTypeName toTypeName edgeType' source inputCallback
       counter s =
     (let suggestedMatcher = convertConditionToMatcher (condition source) in
      case awaitInput inputCallback
             (''Enter matcher condition for relationship \"'' @ fromType relationship @ ''\" '' @
              arrow @ '' \"'' @ toType relationship @ ''\" ('' @ templateText edgeType' @ '')'')
             suggestedMatcher s of
        (Inl e, s') \<Rightarrow> (Inl e, s')
      | (Inr matcher', s') \<Rightarrow>
          (Inr (createSmartscapeEdgeProcessor fromTypeName toTypeName edgeType' matcher' source
                  counter), s'))"

text \<open>\<open>processLogsRelationship\<close>\<close>

definition processLogsRelationship ::
  "Relationship \<Rightarrow> string \<Rightarrow> string \<Rightarrow> JsValue \<Rightarrow> Source \<Rightarrow> 's InputCallback \<Rightarrow> nat \<Rightarrow> 's \<Rightarrow>
   (error + OpenPipelineProcessor) \<times> 's" where
  "processLogsRelationship relationship fromTypeName toTypeName edgeType' source inputCallback
       counter s =
     (let suggestedMatcher =
            (if truthy (condition source) then convertConditionToMatcher (condition source)
             else ''isNotNull(content)'')
      in case awaitInput inputCallback
                (''Enter matcher condition for relationship \"'' @ fromType relationship @
                 ''\" '' @ arrow @ '' \"'' @ toType relationship @ ''\" ('' @
                 templateText edgeType' @ '') (Logs)'')
                suggestedMatcher s of
           (Inl e, s') \<Rightarrow> (Inl e, s')
         | (Inr matcher', s') \<Rightarrow>
             (Inr (createSmartscapeEdgeProcessor fromTypeName toTypeName edgeType' matcher' source
                     counter), s'))"

text \<open>\<open>for (const source of relationship.sources)\<close>\<close>

fun relationshipSources_loop ::
  "Relationship \<Rightarrow> string \<Rightarrow> string \<Rightarrow> JsValue \<Rightarrow> Source list \<Rightarrow> 's InputCallback \<Rightarrow>
   EdgeLoop \<Rightarrow> 's \<Rightarrow> (error + EdgeLoop) \<times> 's" where
  "relationshipSources_loop relationship fromTypeName toTypeName edgeType' [] inputCallback st s =
     (Inr st, s)"
| "relationshipSources_loop relationship fromTypeName toTypeName edgeType' (source # rest)
       inputCallback st s =
     (if Source.sourceType source = ''Metrics'' then
        (case processMetricsRelationship relationship fromTypeName toTypeName edgeType' source
                inputCallback (metricsCounter st) s of
           (Inl e, s') \<Rightarrow> (Inl e, s')
         | (Inr processor, s') \<Rightarrow>
             relationshipSources_loop relationship fromTypeName toTypeName edgeType' rest
               inputCallback
               (st\<lparr>metricsProcessors := metricsProcessors st @ [processor],
                   metricsCounter := metricsCounter st + 1\<rparr>) s')
      else if Source.sourceType source = ''Logs'' then
        (case processLogsRelationship relationship fromTypeName toTypeName edgeType' source
                inputCallback (logsCounter st) s of
           (Inl e, s') \<Rightarrow> (Inl e, s')
         | (Inr processor, s') \<Rightarrow>
             relationshipSources_loop relationship fromTypeName toTypeName edgeType' rest
               inputCallback
               (st\<lparr>logsProcessors := logsProcessors st @ [processor],
                   logsCounter := logsCounter st + 1\<rparr>) s')
      else relationshipSources_loop relationship fromTypeName toTypeName edgeType' rest
             inputCallback st s)"

text \<open>\<open>for (const relationship of relationships)\<close>\<close>

fun relationships_loop ::
  "Relationship list \<Rightarrow> (string \<rightharpoonup> string) \<Rightarrow> 's InputCallback \<Rightarrow> 's InheritedCallback \<Rightarrow>
   EdgeLoop \<Rightarrow> 's \<Rightarrow> (error + EdgeLoop) \<times> (string \<rightharpoonup> string) \<times> 's" where
  "relationships_loop [] typeNameMapping inputCallback inputCallbackInherited st s =
     (Inr st, typeNameMapping, s)"
| "relationships_loop (relationship # rest) typeNameMapping inputCallback inputCallbackInherited
       st s =
     (case lookupOrAskTypeName ''source'' (fromType relationship) typeNameMapping inputCallback s of
        (Inl e, m1, s1) \<Rightarrow> (Inl e, m1, s1)
      | (Inr fromTypeName, m1, s1) \<Rightarrow>
          (case lookupOrAskTypeName ''target'' (toType relationship) m1 inputCallback s1 of
             (Inl e, m2, s2) \<Rightarrow> (Inl e, m2, s2)
           | (Inr toTypeName, m2, s2) \<Rightarrow>
               (case RELATIONSHIP_TYPE_MAPPING_index (typeOfRelation relationship) of
                  None \<Rightarrow> (Inl (UnknownRelationshipType (typeOfRelation relationship)), m2, s2)
                | Some suggestedEdgeType \<Rightarrow>
                    if falsy (Some suggestedEdgeType) then
                      (Inl (UnknownRelationshipType (typeOfRelation relationship)), m2, s2)
                    else
                      (case awaitInputValue inputCallback inputCallbackInherited
                              (''Enter edge type for \"'' @ fromType relationship @ ''\" '' @
                               arrow @ '' \"'' @ toType relationship @ ''\" (was '' @
                               typeOfRelation relationship @ '')'')
                              suggestedEdgeType s2 of
                         (Inl e, s3) \<Rightarrow> (Inl e, m2, s3)
                       | (Inr edgeTypeInput, s3) \<Rightarrow>
                           (case relationshipSources_loop relationship fromTypeName toTypeName
                                   edgeTypeInput (Relationship.sources relationship)
                                   inputCallback st s3 of
                              (Inl e, s4) \<Rightarrow> (Inl e, m2, s4)
                            | (Inr st', s4) \<Rightarrow>
                                relationships_loop rest m2 inputCallback inputCallbackInherited
                                  st' s4)))))"

text \<open>\<open>createProcessorsFromRelationships\<close>\<close>

definition createProcessorsFromRelationships ::
  "Relationship list \<Rightarrow> (string \<rightharpoonup> string) \<Rightarrow> 's InputCallback \<Rightarrow> 's InheritedCallback \<Rightarrow>
   's \<Rightarrow> (error + ProcessorLists) \<times> (string \<rightharpoonup> string) \<times> 's" where
  "createProcessorsFromRelationships relationships typeNameMapping inputCallback
       inputCallbackInherited s =
     (case relationships_loop relationships typeNameMapping inputCallback inputCallbackInherited
             \<lparr>metricsProcessors = [], logsProcessors = [], metricsCounter = 0, logsCounter = 0\<rparr>
             s of
        (Inl e, m, s') \<Rightarrow> (Inl e, m, s')
      | (Inr st, m, s') \<Rightarrow>
          (Inr \<lparr>metricsProcessors = metricsProcessors st, logsProcessors = logsProcessors st\<rparr>,
           m, s'))"

section \<open>Pipeline assembler\<close>

record Topology =
  types :: "TopologyType list option"
  relationships :: "Relationship list option"

record ExtensionStub =
  name :: string
  topology :: "Topology option"
  metrics :: "MetricMetadata list option"

record Extraction =
  processors :: "OpenPipelineProcessor list"

record OpenPipelinePipeline =
  customId :: string
  displayName :: string
  smartscapeNodeExtraction :: "Extraction option"
  smartscapeEdgeExtraction :: "Extraction option"

record OpenPipelineDocs =
  metricPipeline :: "OpenPipelinePipeline option"
  logPipeline :: "OpenPipelinePipeline option"

record PipelineRef =
  displayName :: string
  pipelinePath :: string
  configScope :: string

record SourceRef =
  displayName :: string
  sourcePath :: string
  configScope :: string

record OpenPipeline =
  pipelines :: "PipelineRef list"
  sources :: "SourceRef list"

record Conversion =
  pipelineExtensionYaml :: OpenPipeline
  pipelineDocs :: OpenPipelineDocs

definition METRIC_PIPELINE_FILE :: string where
  "METRIC_PIPELINE_FILE = ''metrics.pipeline.json''"

definition METRIC_SOURCE_FILE :: string where
  "METRIC_SOURCE_FILE = ''metrics.source.json''"

definition LOG_PIPELINE_FILE :: string where
  "LOG_PIPELINE_FILE = ''logs.pipeline.json''"

definition LOG_SOURCE_FILE :: string where
  "LOG_SOURCE_FILE = ''logs.source.json''"

text \<open>
  The two blocks of \<open>convertTopologyToOpenPipeline\<close> that build the pipeline of a scope
  and push its entries; they differ in the scope and the file names only.
\<close>

definition scopePipeline ::
  "string \<Rightarrow> string \<Rightarrow> OpenPipelineProcessor list \<Rightarrow> OpenPipelineProcessor list \<Rightarrow>
   OpenPipelinePipeline option" where
  "scopePipeline cleanedName scope nodeProcessors edgeProcessors =
     (if length nodeProcessors > 0 \<or> length edgeProcessors > 0 then
        Some \<lparr>customId = cleanedName @ ''-'' @ scope,
              OpenPipelinePipeline.displayName = ''ext:'' @ cleanedName,
              smartscapeNodeExtraction =
                (if length nodeProcessors > 0 then Some \<lparr>processors = nodeProcessors\<rparr> else None),
              smartscapeEdgeExtraction =
                (if length edgeProcessors > 0 then Some \<lparr>processors = edgeProcessors\<rparr> else None)\<rparr>
      else None)"

text \<open>
  \<open>convertTopologyToOpenPipeline\<close>. The map \<open>typeNameMapping\<close> is created empty and
  handed to both compilers.
\<close>

definition convertTopologyToOpenPipeline ::
  "ExtensionStub \<Rightarrow> 's InputCallback \<Rightarrow> 's InheritedCallback \<Rightarrow> 's \<Rightarrow>
   (error + Conversion) \<times> 's" where
  "convertTopologyToOpenPipeline extension inputCallback inputCallbackInherited s =
     (case topology extension of
        None \<Rightarrow> (Inl MissingTopology, s)
      | Some topo \<Rightarrow>
          (case (case types topo of
                   None \<Rightarrow>
                     (Inr \<lparr>metricsProcessors = [], logsProcessors = []\<rparr>, Some Map.empty, s)
                 | Some ts \<Rightarrow>
                     createProcessorsFromTopology ts (metrics extension) inputCallback
                       (Some Map.empty) s) of
             (Inl e, m, s1) \<Rightarrow> (Inl e, s1)
           | (Inr nodes, m, s1) \<Rightarrow>
               (case (case relationships topo of
                        None \<Rightarrow>
                          (Inr \<lparr>metricsProcessors = [], logsProcessors = []\<rparr>, Map.empty, s1)
                      | Some rs \<Rightarrow>
                          createProcessorsFromRelationships rs
                            (case m of Some tm \<Rightarrow> tm | None \<Rightarrow> Map.empty) inputCallback
                            inputCallbackInherited s1) of
                  (Inl e, m', s2) \<Rightarrow> (Inl e, s2)
                | (Inr edges, m', s2) \<Rightarrow>
                    (let cleanedName = cleanExtensionName (ExtensionStub.name extension);
                         metricPipeline' =
                           scopePipeline cleanedName ''metrics'' (metricsProcessors nodes)
                             (metricsProcessors edges);
                         logPipeline' =
                           scopePipeline cleanedName ''logs'' (logsProcessors nodes)
                             (logsProcessors edges)
                     in (Inr \<lparr>pipelineExtensionYaml =
                                \<lparr>pipelines =
                                   (if metricPipeline' \<noteq> None then
                                      [\<lparr>PipelineRef.displayName = ''ext:'' @ cleanedName,
                                        pipelinePath = ''openpipeline/'' @ METRIC_PIPELINE_FILE,
                                        PipelineRef.configScope = ''metrics''\<rparr>]
                                    else []) @
                                   (if logPipeline' \<noteq> None then
                                      [\<lparr>PipelineRef.displayName = ''ext:'' @ cleanedName,
                                        pipelinePath = ''openpipeline/'' @ LOG_PIPELINE_FILE,
                                        PipelineRef.configScope = ''logs''\<rparr>]
                                    else []),
                                 sources =
                                   (if metricPipeline' \<noteq> None then
                                      [\<lparr>SourceRef.displayName = ''ext:'' @ cleanedName,
                                        sourcePath = ''openpipeline/'' @ METRIC_SOURCE_FILE,
                                        SourceRef.configScope = ''metrics''\<rparr>]
                                    else []) @
                                   (if logPipeline' \<noteq> None then
                                      [\<lparr>SourceRef.displayName = ''ext:'' @ cleanedName,
                                        sourcePath = ''openpipeline/'' @ LOG_SOURCE_FILE,
                                        SourceRef.configScope = ''logs''\<rparr>]
                                    else [])\<rparr>,
                              pipelineDocs =
                                \<lparr>metricPipeline = metricPipeline',
                                 logPipeline = logPipeline'\<rparr>\<rparr>, s2)))))"

section \<open>Notions of the specification\<close>

text \<open>
  The definitions of this section are not translated from the source. They say what the
  specification's words mean, so that the properties below can be stated in them.
\<close>

subsection \<open>Calls of the condition mini-language\<close>

text \<open>
  \<open>call_at tok arg i c\<close>: at position \<open>i\<close> of \<open>c\<close> stands \<open>tok\<close>, then the non-empty
  argument \<open>arg\<close>, which holds no closing parenthesis, then a closing parenthesis. With
  \<open>tok = ''$prefix(''\<close> this is an occurrence of \<open>$prefix(arg)\<close>. \<open>first_call\<close> is the
  leftmost such occurrence, \<open>no_call\<close> says there is none.
\<close>

definition call_at :: "string \<Rightarrow> string \<Rightarrow> nat \<Rightarrow> string \<Rightarrow> bool" where
  "call_at tok arg i c \<longleftrightarrow>
     arg \<noteq> [] \<and> CHR '')'' \<notin> set arg \<and> prefix (tok @ arg @ '')'') (drop i c)"

definition first_call :: "string \<Rightarrow> string \<Rightarrow> string \<Rightarrow> bool" where
  "first_call tok c arg \<longleftrightarrow> (\<exists>i. call_at tok arg i c \<and> (\<forall>j<i. \<forall>a. \<not> call_at tok a j c))"

definition no_call :: "string \<Rightarrow> string \<Rightarrow> bool" where
  "no_call tok c \<longleftrightarrow> (\<forall>i a. \<not> call_at tok a i c)"

text \<open>
  A string of white space only, in the sense of \<open>trim\<close>: a sequence of white space
  characters and line terminators. The empty string is one.
\<close>

definition blank :: "string \<Rightarrow> bool" where
  "blank c \<longleftrightarrow> (\<exists>ws. set ws \<subseteq> set WhiteSpace \<and> c = concat ws)"

subsection \<open>Extension-name cleaning, first matching rule only\<close>

definition stripFirstMatchingPrefix :: "string \<Rightarrow> string" where
  "stripFirstMatchingPrefix extensionName =
     (if prefix ''custom:com.dynatrace.'' extensionName then
        drop (length ''custom:com.dynatrace.'') extensionName
      else if prefix ''com.dynatrace.'' extensionName then
        drop (length ''com.dynatrace.'') extensionName
      else if prefix ''custom:'' extensionName then drop (length ''custom:'') extensionName
      else extensionName)"

subsection \<open>Dimension requirements\<close>

text \<open>
  \<open>requirement_expression dim e\<close>: \<open>e\<close> is the expression the specification asks for the
  requirement \<open>dim\<close>. A value pattern that is the empty string counts as not supplied,
  and of the two calls \<open>$eq\<close> is looked for first.
\<close>

definition requirement_expression :: "Dimension \<Rightarrow> string \<Rightarrow> bool" where
  "requirement_expression dim e \<longleftrightarrow>
     (case valuePattern dim of
        None \<Rightarrow> e = ''isNotNull('' @ Dimension.key dim @ '')''
      | Some vp \<Rightarrow>
          (vp = [] \<longrightarrow> e = ''isNotNull('' @ Dimension.key dim @ '')'') \<and>
          (\<forall>x. first_call ''$eq('' vp x \<longrightarrow> e = Dimension.key dim @ '' == \"'' @ x @ ''\"'') \<and>
          (\<forall>x. no_call ''$eq('' vp \<and> first_call ''$prefix('' vp x \<longrightarrow>
                 e = ''matchesValue('' @ Dimension.key dim @ '', \"'' @ x @ ''*\")'') \<and>
          (vp \<noteq> [] \<and> no_call ''$eq('' vp \<and> no_call ''$prefix('' vp \<longrightarrow>
             e = Dimension.key dim @ '' == \"'' @ vp @ ''\"''))"

text \<open>The expression that one round of \<open>requiredDimensions_loop\<close> pushes.\<close>

definition pushed_condition :: "Dimension \<Rightarrow> string" where
  "pushed_condition dim = last (requiredDimensions_loop [dim] [])"

subsection \<open>What compiling one source emits\<close>

text \<open>
  \<open>source_output\<close> describes the value of \<open>processMetricsSource\<close> and of
  \<open>processLogsSource\<close> when they return: an entity processor alone when the resolved
  name already has its node extraction, an entity processor and a node processor, and
  the name marked, when it has not.
\<close>

definition source_output ::
  "TopologyType \<Rightarrow> string \<Rightarrow> Source \<Rightarrow> Rule \<Rightarrow> nat \<Rightarrow> string set \<Rightarrow>
   OpenPipelineProcessor list \<Rightarrow> string set \<Rightarrow> bool" where
  "source_output type newName source rule counter withNode ps withNode' \<longleftrightarrow>
     (newName \<in> withNode \<and> withNode' = withNode \<and>
      (\<exists>m. ps = [createSmartscapeNodeProcessor type newName source rule False m counter])) \<or>
     (newName \<notin> withNode \<and> withNode' = insert newName withNode \<and>
      (\<exists>m m'. ps = [createSmartscapeNodeProcessor type newName source rule False m counter,
                    createSmartscapeNodeProcessor type newName source rule True m'
                      (counter + 1)]))"

subsection \<open>Counting the processors of a resolved name\<close>

text \<open>
  A node-extraction processor for the name \<open>n\<close> is a node-variant processor with node
  type \<open>n\<close> and \<open>extractNode = true\<close>; an entity processor has \<open>extractNode = false\<close>.
  The sources that the node compiler compiles are those of source type \<open>Metrics\<close> or
  \<open>Logs\<close>.
\<close>

definition carries_name :: "string \<Rightarrow> OpenPipelineProcessor \<Rightarrow> bool" where
  "carries_name n p = (case smartscapeNode p of None \<Rightarrow> False | Some nd \<Rightarrow> nodeType nd = n)"

definition node_extraction_for :: "string \<Rightarrow> OpenPipelineProcessor \<Rightarrow> bool" where
  "node_extraction_for n p =
     (case smartscapeNode p of None \<Rightarrow> False | Some nd \<Rightarrow> nodeType nd = n \<and> extractNode nd)"

definition entity_processor :: "OpenPipelineProcessor \<Rightarrow> bool" where
  "entity_processor p =
     (case smartscapeNode p of None \<Rightarrow> False | Some nd \<Rightarrow> \<not> extractNode nd)"

definition compiled_source :: "Source \<Rightarrow> bool" where
  "compiled_source source \<longleftrightarrow>
     Source.sourceType source = ''Metrics'' \<or> Source.sourceType source = ''Logs''"

definition compiled_sources :: "TopologyType \<Rightarrow> Source list" where
  "compiled_sources type = concat (map (\<lambda>rule. filter compiled_source (Rule.sources rule)) (rules type))"

subsection \<open>Invariants of the loops of the node compiler\<close>

text \<open>
  \<open>counted\<close>: each marked name has exactly one node-extraction processor among the
  processors emitted so far, an unmarked name has none, and every emitted processor
  carries a marked name. \<open>entities\<close> counts the entity processors emitted so far.
\<close>

definition counted :: "NodeLoop \<Rightarrow> bool" where
  "counted st \<longleftrightarrow>
     (\<forall>n. length (filter (node_extraction_for n) (metricsProcessors st @ logsProcessors st)) =
          (if n \<in> entityTypesWithNodeExtraction st then 1 else 0)) \<and>
     (\<forall>p\<in>set (metricsProcessors st @ logsProcessors st).
        \<exists>n\<in>entityTypesWithNodeExtraction st. carries_name n p)"

definition entities :: "NodeLoop \<Rightarrow> nat" where
  "entities st = length (filter entity_processor (metricsProcessors st @ logsProcessors st))"

subsection \<open>Observing the Resolution Port\<close>

text \<open>
  To speak of the calls that a run makes, a callback is wrapped so that it keeps, next
  to its own state, the list of its calls so far: prompt, suggested value and answer,
  in the order of the calls. \<open>recording\<close> changes no answer and no state of the callback
  it wraps, and \<open>recording_inherited\<close> does the same for what the callback answers to an
  inherited member; in the list such a member stands as the text that a template
  literal makes of it, which is never empty. \<open>scripted\<close> is a callback that answers
  from a list, whatever it is asked, and cancels when the list is used up.
\<close>

record PortCall =
  prompt :: string
  suggestedValue :: string
  answer :: "string option"

definition recording :: "'s InputCallback \<Rightarrow> ('s \<times> PortCall list) InputCallback" where
  "recording inputCallback sl p v =
     (case inputCallback (fst sl) p v of
        (a, s') \<Rightarrow> (a, (s', snd sl @ [\<lparr>prompt = p, suggestedValue = v, answer = a\<rparr>])))"

definition recording_inherited ::
  "'s InheritedCallback \<Rightarrow> ('s \<times> PortCall list) InheritedCallback" where
  "recording_inherited inputCallbackInherited sl p k =
     (case inputCallbackInherited (fst sl) p k of
        (a, s') \<Rightarrow>
          (a, (s', snd sl @ [\<lparr>prompt = p, suggestedValue = templateText (Inherited k),
                               answer = map_option templateText a\<rparr>])))"

definition scripted :: "(string option list) InputCallback" where
  "scripted answers p v = (case answers of [] \<Rightarrow> (None, []) | a # rest \<Rightarrow> (a, rest))"

definition scripted_inherited :: "(string option list) InheritedCallback" where
  "scripted_inherited answers p k =
     (case answers of [] \<Rightarrow> (None, []) | a # rest \<Rightarrow> (map_option Text a, rest))"

text \<open>
  \<open>failure\<close> is the error of a result, if any. \<open>answered_since log log' e\<close>: the log
  \<open>log'\<close> continues \<open>log\<close>, and unless the run ended with the cancellation error, every
  call added was answered with a non-empty string.
\<close>

definition failure :: "error + 'a \<Rightarrow> error option" where
  "failure r = (case r of Inl e \<Rightarrow> Some e | Inr x \<Rightarrow> None)"

definition answered_since :: "PortCall list \<Rightarrow> PortCall list \<Rightarrow> error option \<Rightarrow> bool" where
  "answered_since log log' e \<longleftrightarrow>
     (\<exists>new. log' = log @ new \<and> (e \<noteq> Some UserCancelled \<longrightarrow> (\<forall>c\<in>set new. truthy (answer c))))"

subsection \<open>The prompts of a run\<close>

text \<open>
  \<open>calls_since P log log'\<close>: the log \<open>log'\<close> continues \<open>log\<close>, and every call added
  satisfies \<open>P\<close>. The prompts of the source are told apart by how they begin: a matcher
  prompt, the name prompt of the node compiler, and the two name prompts of the edge
  compiler, for the source and the target of a relationship.
\<close>

definition calls_since :: "(PortCall \<Rightarrow> bool) \<Rightarrow> PortCall list \<Rightarrow> PortCall list \<Rightarrow> bool" where
  "calls_since P log log' \<longleftrightarrow> (\<exists>new. log' = log @ new \<and> (\<forall>c\<in>set new. P c))"

definition matcher_prompt :: "PortCall \<Rightarrow> bool" where
  "matcher_prompt c \<longleftrightarrow> prefix ''Enter matcher condition'' (prompt c)"

definition edge_type_prompt :: "PortCall \<Rightarrow> bool" where
  "edge_type_prompt c \<longleftrightarrow> prefix ''Enter edge type'' (prompt c)"

definition type_name_prompt :: "PortCall \<Rightarrow> bool" where
  "type_name_prompt c \<longleftrightarrow> prefix ''Enter new name for type \"'' (prompt c)"

definition asks_name :: "string \<Rightarrow> PortCall \<Rightarrow> bool" where
  "asks_name k c \<longleftrightarrow>
     prompt c = ''Enter new name for source type \"'' @ k @ ''\"'' \<or>
     prompt c = ''Enter new name for target type \"'' @ k @ ''\"''"

text \<open>
  \<open>resolved_once tm new tm'\<close> relates the mapping \<open>tm\<close> before a stretch of edge
  compilation, the calls \<open>new\<close> of the stretch and the mapping \<open>tm'\<close> after it: the Port
  is not asked for a name that \<open>tm\<close> maps and is asked at most once for any other name,
  and what \<open>tm\<close> maps, \<open>tm'\<close> maps to the same. A name is mapped when it is bound to a
  string that is not empty, as the test \<open>if (!fromTypeName)\<close> of the source has it.
  \<open>answered_names new tm'\<close>: every name asked for in \<open>new\<close> is mapped by \<open>tm'\<close>.
\<close>

definition resolved_once ::
  "(string \<rightharpoonup> string) \<Rightarrow> PortCall list \<Rightarrow> (string \<rightharpoonup> string) \<Rightarrow> bool" where
  "resolved_once tm new tm' \<longleftrightarrow>
     (\<forall>k. length (filter (asks_name k) new) \<le> (if truthy (tm k) then 0 else 1)) \<and>
     (\<forall>k. truthy (tm k) \<longrightarrow> tm' k = tm k)"

definition answered_names :: "PortCall list \<Rightarrow> (string \<rightharpoonup> string) \<Rightarrow> bool" where
  "answered_names new tm' \<longleftrightarrow> (\<forall>k. filter (asks_name k) new \<noteq> [] \<longrightarrow> truthy (tm' k))"

subsection \<open>Relationship kinds outside the enumeration\<close>

text \<open>
  A relationship kind is unknown when it is none of the six kinds of the enumeration.
  The names that every JavaScript object inherits are set apart: indexing
  \<open>RELATIONSHIP_TYPE_MAPPING\<close> with one of them raises no error in the source.
\<close>

definition unknown_kind :: "string \<Rightarrow> bool" where
  "unknown_kind k \<longleftrightarrow>
     k \<notin> {''CHILD_OF'', ''RUNS_ON'', ''INSTANCE_OF'', ''PART_OF'', ''CALLS'', ''SAME_AS''} \<and>
     k \<notin> set Object_prototype_properties"

text \<open>
  The name prompts that a relationship needs when the loop reaches it with the mapping
  \<open>tm\<close>: one for \<open>fromType\<close> unless it is mapped, then one for \<open>toType\<close> unless it is
  mapped or is \<open>fromType\<close>, which has just been mapped.
\<close>

definition name_prompts :: "(string \<rightharpoonup> string) \<Rightarrow> Relationship \<Rightarrow> string list" where
  "name_prompts tm rel =
     (if truthy (tm (fromType rel)) then []
      else [''Enter new name for source type \"'' @ fromType rel @ ''\"'']) @
     (if truthy (tm (toType rel)) \<or> toType rel = fromType rel then []
      else [''Enter new name for target type \"'' @ toType rel @ ''\"''])"

subsection \<open>Name mappings of a run\<close>

text \<open>
  Every name that a run binds is an answer of the Resolution Port that passed the
  test \<open>if (!x) throw\<close>, so it is not empty.
\<close>

definition bound_names_nonempty :: "(string \<rightharpoonup> string) \<Rightarrow> bool" where
  "bound_names_nonempty m \<longleftrightarrow> (\<forall>k v. m k = Some v \<longrightarrow> v \<noteq> [])"

section \<open>Properties\<close>

subsection \<open>Strings and regular expressions\<close>

lemma WhiteSpace_nonempty: "w \<in> set WhiteSpace \<Longrightarrow> w \<noteq> []"
  by (auto simp: WhiteSpace_def)

lemma WhiteSpace_length:
  "w \<in> set WhiteSpace \<Longrightarrow>
     length w = (if hd w = CHR 0xC2 then 2 else if hd w \<in> {CHR 0xE1, CHR 0xE2, CHR 0xE3, CHR 0xEF} then 3 else 1)"
  by (auto simp: WhiteSpace_def)

lemma WhiteSpace_prefix_free:
  assumes "w \<in> set WhiteSpace" and "w' \<in> set WhiteSpace" and "prefix w w'"
  shows "w = w'"
proof -
  from assms(1,2) have "w \<noteq> []" "w' \<noteq> []" by (auto dest: WhiteSpace_nonempty)
  with assms(3) have "hd w = hd w'" by (cases w; cases w') auto
  with WhiteSpace_length [OF assms(1)] WhiteSpace_length [OF assms(2)]
  have "length w = length w'" by simp
  with assms(3) show ?thesis by (auto simp: prefix_def)
qed

lemma blank_Nil: "blank []"
  unfolding blank_def by (rule exI [of _ "[]"]) simp

lemma blank_Cons: "w \<in> set WhiteSpace \<Longrightarrow> blank s \<Longrightarrow> blank (w @ s)"
  unfolding blank_def
proof -
  assume w: "w \<in> set WhiteSpace" and "\<exists>ws. set ws \<subseteq> set WhiteSpace \<and> s = concat ws"
  then obtain ws where "set ws \<subseteq> set WhiteSpace" "s = concat ws" by blast
  with w have "set (w # ws) \<subseteq> set WhiteSpace \<and> w @ s = concat (w # ws)" by simp
  then show "\<exists>ws. set ws \<subseteq> set WhiteSpace \<and> w @ s = concat ws" by blast
qed

lemma blank_append: "blank a \<Longrightarrow> blank b \<Longrightarrow> blank (a @ b)"
  unfolding blank_def
proof -
  assume "\<exists>ws. set ws \<subseteq> set WhiteSpace \<and> a = concat ws" "\<exists>ws. set ws \<subseteq> set WhiteSpace \<and> b = concat ws"
  then obtain wa wb where "set wa \<subseteq> set WhiteSpace" "a = concat wa" "set wb \<subseteq> set WhiteSpace" "b = concat wb"
    by blast
  then have "set (wa @ wb) \<subseteq> set WhiteSpace \<and> a @ b = concat (wa @ wb)" by simp
  then show "\<exists>ws. set ws \<subseteq> set WhiteSpace \<and> a @ b = concat ws" by blast
qed

lemma trimStart_decomp: "\<exists>b. blank b \<and> s = b @ trimStart s"
proof (induction s rule: trimStart.induct)
  case (1 s)
  show ?case
  proof (cases "find (\<lambda>w. prefix w s) WhiteSpace")
    case None
    then have "trimStart s = s" by (simp add: trimStart.simps [of s])
    with blank_Nil show ?thesis by (intro exI [of _ "[]"]) simp
  next
    case (Some w)
    then have w: "w \<in> set WhiteSpace" "prefix w s" by (auto simp: find_Some_iff)
    from Some have t: "trimStart s = trimStart (drop (length w) s)"
      by (simp add: trimStart.simps [of s])
    from 1 [OF Some] obtain b where b: "blank b" "drop (length w) s = b @ trimStart (drop (length w) s)"
      by blast
    from w(2) have "s = w @ drop (length w) s" by (auto simp: prefix_def)
    with b(2) t have "s = (w @ b) @ trimStart s" by simp
    moreover from w(1) b(1) have "blank (w @ b)" by (rule blank_Cons)
    ultimately show ?thesis by blast
  qed
qed

lemma trimEnd_decomp: "\<exists>b. blank b \<and> s = trimEnd s @ b"
proof (induction s rule: trimEnd.induct)
  case (1 s)
  show ?case
  proof (cases "find (\<lambda>w. suffix w s) WhiteSpace")
    case None
    then have "trimEnd s = s" by (simp add: trimEnd.simps [of s])
    with blank_Nil show ?thesis by (intro exI [of _ "[]"]) simp
  next
    case (Some w)
    then have w: "w \<in> set WhiteSpace" "suffix w s" by (auto simp: find_Some_iff)
    from Some have t: "trimEnd s = trimEnd (take (length s - length w) s)"
      by (simp add: trimEnd.simps [of s])
    from 1 [OF Some] obtain b where b: "blank b"
        "take (length s - length w) s = trimEnd (take (length s - length w) s) @ b"
      by blast
    from w(2) have "s = take (length s - length w) s @ w" by (auto simp: suffix_def)
    with b(2) t have "s = trimEnd s @ (b @ w)" by (metis append.assoc)
    moreover from w(1) blank_Nil have "blank (w @ [])" by (rule blank_Cons)
    with b(1) have "blank (b @ w)" by (simp add: blank_append)
    ultimately show ?thesis by blast
  qed
qed

lemma blank_trimStart: "blank s \<Longrightarrow> trimStart s = []"
proof (induction s rule: trimStart.induct)
  case (1 s)
  from "1.prems" obtain ws where ws: "set ws \<subseteq> set WhiteSpace" "s = concat ws"
    unfolding blank_def by blast
  show ?case
  proof (cases ws)
    case Nil
    with ws have "s = []" by simp
    then show ?thesis by (simp add: trimStart.simps [of "[]"] WhiteSpace_def)
  next
    case (Cons w rest)
    with ws have w: "w \<in> set WhiteSpace" and s: "s = w @ concat rest"
      and rest: "set rest \<subseteq> set WhiteSpace" by simp_all
    from w s have "find (\<lambda>w. prefix w s) WhiteSpace \<noteq> None"
      by (auto simp: find_None_iff)
    then obtain w' where f: "find (\<lambda>w. prefix w s) WhiteSpace = Some w'" by blast
    then have w': "w' \<in> set WhiteSpace" "prefix w' s" by (auto simp: find_Some_iff)
    from s have "prefix w s" by simp
    with w'(2) have "prefix w w' \<or> prefix w' w" by (auto dest: prefix_same_cases)
    with w w'(1) have "w' = w" by (auto dest: WhiteSpace_prefix_free)
    with s have "drop (length w') s = concat rest" by simp
    with rest have "blank (drop (length w') s)" unfolding blank_def by blast
    from 1(1) [OF f this] f show ?thesis by (simp add: trimStart.simps [of s])
  qed
qed

lemma trimEnd_Nil: "trimEnd [] = []"
  by (simp add: trimEnd.simps [of "[]"] WhiteSpace_def)

lemma trim_empty_iff: "trim c = [] \<longleftrightarrow> blank c"
proof
  assume t: "trim c = []"
  obtain b1 where b1: "blank b1" "c = b1 @ trimStart c" using trimStart_decomp by blast
  obtain b2 where b2: "blank b2" "trimStart c = trimEnd (trimStart c) @ b2"
    using trimEnd_decomp by blast
  from t b2(2) have "trimStart c = b2" by (simp add: trim_def)
  with b1 b2(1) show "blank c" by (metis blank_append)
next
  assume "blank c"
  then show "trim c = []" by (simp add: trim_def blank_trimStart trimEnd_Nil)
qed

lemma takeWhile_call:
  assumes "CHR '')'' \<notin> set arg"
  shows "takeWhile (\<lambda>c. c \<noteq> CHR '')'') (arg @ CHR '')'' # post) = arg"
  using assms by (induction arg) auto

lemma match_call_here_iff: "match_call_here tok s = Some arg \<longleftrightarrow> call_at tok arg 0 s"
proof
  assume h: "match_call_here tok s = Some arg"
  then have p: "prefix tok s" by (simp add: match_call_here_def split: if_splits)
  define rest where "rest = drop (length tok) s"
  from p have s: "s = tok @ rest" by (auto simp: prefix_def rest_def)
  from h p have arg: "arg = takeWhile (\<lambda>c. c \<noteq> CHR '')'') rest" "arg \<noteq> []" "length arg < length rest"
    by (auto simp: match_call_here_def Let_def rest_def split: if_splits)
  have split: "rest = arg @ dropWhile (\<lambda>c. c \<noteq> CHR '')'') rest"
    using arg(1) by simp
  have ne: "dropWhile (\<lambda>c. c \<noteq> CHR '')'') rest \<noteq> []"
  proof
    assume "dropWhile (\<lambda>c. c \<noteq> CHR '')'') rest = []"
    with split have "rest = arg" by simp
    with arg(3) show False by simp
  qed
  then obtain d post where d: "dropWhile (\<lambda>c. c \<noteq> CHR '')'') rest = d # post"
    by (cases "dropWhile (\<lambda>c. c \<noteq> CHR '')'') rest") auto
  from ne have "\<not> (hd (dropWhile (\<lambda>c. c \<noteq> CHR '')'') rest) \<noteq> CHR '')'')"
    by (rule hd_dropWhile)
  with d have "d = CHR '')''" by simp
  with split d have "rest = arg @ CHR '')'' # post" by simp
  moreover have "CHR '')'' \<notin> set arg"
    unfolding arg(1) by (auto dest: set_takeWhileD)
  ultimately show "call_at tok arg 0 s"
    using s arg(2) by (simp add: call_at_def prefix_def)
next
  assume "call_at tok arg 0 s"
  then obtain post where s: "s = tok @ arg @ CHR '')'' # post" and a: "arg \<noteq> []" "CHR '')'' \<notin> set arg"
    by (auto simp: call_at_def prefix_def)
  show "match_call_here tok s = Some arg"
    using a by (simp add: match_call_here_def s takeWhile_call Let_def)
qed

lemma call_at_Suc: "call_at tok arg (Suc i) (x # cs) = call_at tok arg i cs"
  by (simp add: call_at_def)

lemma call_at_Nil: "\<not> call_at tok arg i []"
  by (simp add: call_at_def)

lemma call_at_unique:
  assumes "call_at tok a i c" and "call_at tok b i c"
  shows "a = b"
proof -
  from assms have "call_at tok a 0 (drop i c)" "call_at tok b 0 (drop i c)"
    by (simp_all add: call_at_def)
  then have "match_call_here tok (drop i c) = Some a" "match_call_here tok (drop i c) = Some b"
    by (simp_all only: match_call_here_iff)
  then show ?thesis by simp
qed

lemma match_call_None_iff: "match_call tok c = None \<longleftrightarrow> no_call tok c"
proof (induction c)
  case Nil
  have "match_call_here tok [] = None"
    using match_call_here_iff [of tok "[]"] call_at_Nil by (cases "match_call_here tok []") auto
  then show ?case by (simp add: no_call_def call_at_Nil)
next
  case (Cons x cs)
  show ?case
  proof (cases "match_call_here tok (x # cs)")
    case (Some a)
    then have "call_at tok a 0 (x # cs)" by (simp add: match_call_here_iff)
    with Some show ?thesis by (auto simp: no_call_def)
  next
    case None
    then have n0: "\<And>a. \<not> call_at tok a 0 (x # cs)"
      using match_call_here_iff [of tok "x # cs"] by simp
    have "no_call tok (x # cs) \<longleftrightarrow> no_call tok cs"
    proof
      assume "no_call tok (x # cs)"
      then show "no_call tok cs"
        unfolding no_call_def using call_at_Suc by blast
    next
      assume nc: "no_call tok cs"
      show "no_call tok (x # cs)"
        unfolding no_call_def
      proof (intro allI)
        fix i a
        show "\<not> call_at tok a i (x # cs)"
          using n0 nc by (cases i) (auto simp: call_at_Suc no_call_def)
      qed
    qed
    with None Cons show ?thesis by simp
  qed
qed

lemma match_call_Some_iff: "match_call tok c = Some arg \<longleftrightarrow> first_call tok c arg"
proof (induction c)
  case Nil
  have "match_call_here tok [] = None"
    using match_call_here_iff [of tok "[]"] call_at_Nil by (cases "match_call_here tok []") auto
  then show ?case by (simp add: first_call_def call_at_Nil)
next
  case (Cons x cs)
  show ?case
  proof (cases "match_call_here tok (x # cs)")
    case (Some a)
    then have a0: "call_at tok a 0 (x # cs)" by (simp add: match_call_here_iff)
    have "first_call tok (x # cs) arg \<longleftrightarrow> arg = a"
    proof
      assume "first_call tok (x # cs) arg"
      then obtain i where i: "call_at tok arg i (x # cs)" "\<forall>j<i. \<forall>b. \<not> call_at tok b j (x # cs)"
        by (auto simp: first_call_def)
      with a0 have "i = 0" by (cases i) auto
      with i(1) a0 show "arg = a" by (auto dest: call_at_unique)
    next
      assume "arg = a"
      with a0 show "first_call tok (x # cs) arg" by (auto simp: first_call_def)
    qed
    with Some show ?thesis by auto
  next
    case None
    then have n0: "\<And>a. \<not> call_at tok a 0 (x # cs)"
      using match_call_here_iff [of tok "x # cs"] by simp
    have "first_call tok (x # cs) arg \<longleftrightarrow> first_call tok cs arg"
    proof
      assume "first_call tok (x # cs) arg"
      then obtain i where i: "call_at tok arg i (x # cs)" "\<forall>j<i. \<forall>b. \<not> call_at tok b j (x # cs)"
        by (auto simp: first_call_def)
      from i(1) n0 obtain k where k: "i = Suc k" by (cases i) auto
      with i(1) have "call_at tok arg k cs" by (simp add: call_at_Suc)
      moreover have "\<forall>j<k. \<forall>b. \<not> call_at tok b j cs"
      proof (intro allI impI)
        fix j b assume "j < k"
        then have "Suc j < i" using k by simp
        with i(2) have "\<not> call_at tok b (Suc j) (x # cs)" by blast
        then show "\<not> call_at tok b j cs" by (simp add: call_at_Suc)
      qed
      ultimately show "first_call tok cs arg" by (auto simp: first_call_def)
    next
      assume "first_call tok cs arg"
      then obtain k where k: "call_at tok arg k cs" "\<forall>j<k. \<forall>b. \<not> call_at tok b j cs"
        by (auto simp: first_call_def)
      have "call_at tok arg (Suc k) (x # cs)" using k(1) by (simp add: call_at_Suc)
      moreover have "\<forall>j<Suc k. \<forall>b. \<not> call_at tok b j (x # cs)"
      proof (intro allI impI)
        fix j b assume "j < Suc k"
        then show "\<not> call_at tok b j (x # cs)"
          using n0 k(2) by (cases j) (auto simp: call_at_Suc)
      qed
      ultimately show "first_call tok (x # cs) arg" unfolding first_call_def by blast
    qed
    with None Cons show ?thesis by simp
  qed
qed

lemma call_at_paren:
  assumes "call_at tok arg i c"
  shows "CHR '')'' \<in> set c"
proof -
  from assms have "prefix (tok @ arg @ '')'') (drop i c)"
    by (simp add: call_at_def)
  then obtain post where "drop i c = (tok @ arg @ '')'') @ post"
    by (rule prefixE)
  then have "set (drop i c) = set ((tok @ arg @ '')'') @ post)" by (rule arg_cong)
  then have "CHR '')'' \<in> set (drop i c)" by simp
  then show ?thesis by (rule in_set_dropD)
qed

lemma blank_chars:
  assumes "blank c" and "x \<in> set c"
  shows "x \<in> \<Union> (set ` set WhiteSpace)"
proof -
  from assms(1) obtain ws where ws: "set ws \<subseteq> set WhiteSpace" "c = concat ws"
    unfolding blank_def by blast
  with assms(2) obtain w where "w \<in> set ws" "x \<in> set w" by auto
  with ws(1) show ?thesis by blast
qed

lemma paren_not_blank:
  assumes "CHR '')'' \<in> set c"
  shows "\<not> blank c"
proof
  assume "blank c"
  with assms have "CHR '')'' \<in> \<Union> (set ` set WhiteSpace)" by (rule blank_chars [rotated])
  then show False by (simp add: WhiteSpace_def)
qed

lemma blank_Cons_head:
  assumes "blank (x # xs)"
  shows "x \<in> hd ` set WhiteSpace"
proof -
  from assms obtain ws where ws: "set ws \<subseteq> set WhiteSpace" "x # xs = concat ws"
    unfolding blank_def by blast
  then show ?thesis
  proof (induction ws)
    case Nil
    then show ?case by simp
  next
    case (Cons w rest)
    then have w: "w \<in> set WhiteSpace" by simp
    then have "w \<noteq> []" by (rule WhiteSpace_nonempty)
    with Cons.prems(2) have "hd w = x" by (cases w) auto
    with w show ?case by auto
  qed
qed

text \<open>A string that begins with no byte of a white space character is not trimmed away.\<close>

lemma not_blank_Cons:
  assumes "x \<notin> {CHR 0x09, CHR 0x0A, CHR 0x0B, CHR 0x0C, CHR 0x0D, CHR 0x20, CHR 0xC2,
                 CHR 0xE1, CHR 0xE2, CHR 0xE3, CHR 0xEF}"
  shows "\<not> blank (x # xs)"
proof
  assume "blank (x # xs)"
  then have "x \<in> hd ` set WhiteSpace" by (rule blank_Cons_head)
  with assms show False by (auto simp: WhiteSpace_def)
qed

lemma trim_Cons_nonempty:
  assumes "x \<notin> {CHR 0x09, CHR 0x0A, CHR 0x0B, CHR 0x0C, CHR 0x0D, CHR 0x20, CHR 0xC2,
                 CHR 0xE1, CHR 0xE2, CHR 0xE3, CHR 0xEF}"
  shows "trim (x # xs) \<noteq> []"
  using not_blank_Cons [OF assms] by (simp add: trim_empty_iff)

lemma first_call_not_blank:
  assumes "first_call tok c arg"
  shows "\<not> blank c"
proof -
  from assms obtain i where "call_at tok arg i c" unfolding first_call_def by blast
  then show ?thesis by (intro paren_not_blank call_at_paren)
qed

lemma exists_not_blank:
  assumes "sublist ''$exists()'' c"
  shows "\<not> blank c"
proof -
  from assms obtain ps ss where "c = ps @ ''$exists()'' @ ss"
    unfolding sublist_def by blast
  then have "set c = set (ps @ ''$exists()'' @ ss)" by (rule arg_cong)
  then have "CHR '')'' \<in> set c" by simp
  then show ?thesis by (rule paren_not_blank)
qed

subsection \<open>Condition translator\<close>

text \<open>
  C3, as amended. The metric-condition translation returns, in this order of priority:
  \<open>isNotNull(metric.key)\<close> when the condition is undefined, empty or white space only,
  which is what \<open>trim\<close> removes: the white space characters and line terminators of
  ECMAScript, the no-break space among them;
  \<open>matchesValue(metric.key, "X*")\<close> when it contains \<open>$prefix(X)\<close>, where \<open>X\<close> is the
  non-empty argument, free of closing parentheses, of the leftmost such call;
  \<open>metric.key == "X"\<close> when it contains no such \<open>$prefix\<close> call and \<open>X\<close> is the
  argument of the leftmost \<open>$eq(X)\<close>; \<open>isNotNull(metric.key)\<close> when it contains neither
  call and contains \<open>$exists()\<close>; and otherwise \<open>matchesValue(metric.key, "C")\<close> for the
  whole condition \<open>C\<close>.
\<close>

theorem convertConditionToMatcher_rules:
  "convertConditionToMatcher None = ''isNotNull(metric.key)'' \<and>
   (blank c \<longrightarrow> convertConditionToMatcher (Some c) = ''isNotNull(metric.key)'') \<and>
   (first_call ''$prefix('' c x \<longrightarrow>
      convertConditionToMatcher (Some c) = ''matchesValue(metric.key, \"'' @ x @ ''*\")'') \<and>
   (no_call ''$prefix('' c \<and> first_call ''$eq('' c x \<longrightarrow>
      convertConditionToMatcher (Some c) = ''metric.key == \"'' @ x @ ''\"'') \<and>
   (no_call ''$prefix('' c \<and> no_call ''$eq('' c \<and> sublist ''$exists()'' c \<longrightarrow>
      convertConditionToMatcher (Some c) = ''isNotNull(metric.key)'') \<and>
   (\<not> blank c \<and> no_call ''$prefix('' c \<and> no_call ''$eq('' c \<and> \<not> sublist ''$exists()'' c \<longrightarrow>
      convertConditionToMatcher (Some c) = ''matchesValue(metric.key, \"'' @ c @ ''\")'')"
proof (intro conjI impI)
  show "convertConditionToMatcher None = ''isNotNull(metric.key)''"
    by (simp add: convertConditionToMatcher_def)
next
  assume "blank c"
  then show "convertConditionToMatcher (Some c) = ''isNotNull(metric.key)''"
    by (simp add: convertConditionToMatcher_def trim_empty_iff)
next
  assume h: "first_call ''$prefix('' c x"
  then have nb: "\<not> blank c" "c \<noteq> []" by (auto dest: first_call_not_blank simp: blank_Nil)
  from h have "match_call ''$prefix('' c = Some x" by (simp only: match_call_Some_iff)
  with nb show "convertConditionToMatcher (Some c) = ''matchesValue(metric.key, \"'' @ x @ ''*\")''"
    by (simp add: convertConditionToMatcher_def trim_empty_iff)
next
  assume h: "no_call ''$prefix('' c \<and> first_call ''$eq('' c x"
  then have nb: "\<not> blank c" "c \<noteq> []" by (auto dest: first_call_not_blank simp: blank_Nil)
  from h have "match_call ''$prefix('' c = None" "match_call ''$eq('' c = Some x"
    by (simp_all only: match_call_Some_iff match_call_None_iff)
  with nb show "convertConditionToMatcher (Some c) = ''metric.key == \"'' @ x @ ''\"''"
    by (simp add: convertConditionToMatcher_def trim_empty_iff)
next
  assume h: "no_call ''$prefix('' c \<and> no_call ''$eq('' c \<and> sublist ''$exists()'' c"
  then have nb: "\<not> blank c" "c \<noteq> []" by (auto dest: exists_not_blank simp: blank_Nil)
  from h have "match_call ''$prefix('' c = None" "match_call ''$eq('' c = None"
    by (simp_all only: match_call_None_iff)
  with nb h show "convertConditionToMatcher (Some c) = ''isNotNull(metric.key)''"
    by (simp add: convertConditionToMatcher_def trim_empty_iff)
next
  assume h: "\<not> blank c \<and> no_call ''$prefix('' c \<and> no_call ''$eq('' c \<and> \<not> sublist ''$exists()'' c"
  then have nb: "\<not> blank c" "c \<noteq> []" by (auto simp: blank_Nil)
  from h have "match_call ''$prefix('' c = None" "match_call ''$eq('' c = None"
    by (simp_all only: match_call_None_iff)
  with nb h show "convertConditionToMatcher (Some c) = ''matchesValue(metric.key, \"'' @ c @ ''\")''"
    by (simp add: convertConditionToMatcher_def trim_empty_iff)
qed


theorem convertConditionToMatcher_rules_witness:
  "convertConditionToMatcher (Some [CHR 0x09, CHR 0xC2, CHR 0xA0, CHR '' '']) =
     ''isNotNull(metric.key)'' \<and>
   convertConditionToMatcher (Some ''k $prefix(cloudhub.org.)$eq(z)'') =
     ''matchesValue(metric.key, \"cloudhub.org.*\")'' \<and>
   convertConditionToMatcher (Some ''$prefix()$eq(a.b)$exists()'') = ''metric.key == \"a.b\"'' \<and>
   convertConditionToMatcher (Some ''$eq()$exists()'') = ''isNotNull(metric.key)'' \<and>
   convertConditionToMatcher (Some ''a.*'') = ''matchesValue(metric.key, \"a.*\")''"
proof -
  have "set [[CHR 0x09], [CHR 0xC2, CHR 0xA0], [CHR '' '']] \<subseteq> set WhiteSpace \<and>
        [CHR 0x09, CHR 0xC2, CHR 0xA0, CHR '' ''] =
        concat [[CHR 0x09], [CHR 0xC2, CHR 0xA0], [CHR '' '']]"
    by (simp add: WhiteSpace_def)
  then have h1: "blank [CHR 0x09, CHR 0xC2, CHR 0xA0, CHR '' '']"
    unfolding blank_def by (rule exI)
  have h2: "first_call ''$prefix('' ''k $prefix(cloudhub.org.)$eq(z)'' ''cloudhub.org.''"
    unfolding match_call_Some_iff [symmetric] by (simp add: match_call_here_def)
  have h3: "no_call ''$prefix('' ''$prefix()$eq(a.b)$exists()'' \<and>
            first_call ''$eq('' ''$prefix()$eq(a.b)$exists()'' ''a.b''"
    unfolding match_call_Some_iff [symmetric] match_call_None_iff [symmetric]
    by (simp add: match_call_here_def)
  have h4: "no_call ''$prefix('' ''$eq()$exists()'' \<and> no_call ''$eq('' ''$eq()$exists()'' \<and>
            sublist ''$exists()'' ''$eq()$exists()''"
    unfolding match_call_None_iff [symmetric] by (simp add: match_call_here_def sublist_code)
  have h5: "\<not> blank ''a.*'' \<and> no_call ''$prefix('' ''a.*'' \<and> no_call ''$eq('' ''a.*'' \<and>
            \<not> sublist ''$exists()'' ''a.*''"
    unfolding match_call_None_iff [symmetric]
    by (simp add: match_call_here_def not_blank_Cons sublist_code)
  from h1 h2 h3 h4 h5
    convertConditionToMatcher_rules [of "[CHR 0x09, CHR 0xC2, CHR 0xA0, CHR '' '']"]
    convertConditionToMatcher_rules [of "''k $prefix(cloudhub.org.)$eq(z)''" "''cloudhub.org.''"]
    convertConditionToMatcher_rules [of "''$prefix()$eq(a.b)$exists()''" "''a.b''"]
    convertConditionToMatcher_rules [of "''$eq()$exists()''"]
    convertConditionToMatcher_rules [of "''a.*''"]
  show ?thesis by simp
qed

text \<open>
  The claim as stated fails on a condition of white space: it is not empty and holds no
  call, so the claim asks for \<open>matchesValue(metric.key, " ")\<close>.
\<close>

theorem convertConditionToMatcher_white_space:
  "'' '' \<noteq> [] \<and> no_call ''$prefix('' '' '' \<and> no_call ''$eq('' '' '' \<and>
   \<not> sublist ''$exists()'' '' '' \<and>
   convertConditionToMatcher (Some '' '') = ''isNotNull(metric.key)'' \<and>
   convertConditionToMatcher (Some '' '') \<noteq> ''matchesValue(metric.key, \" \")''"
proof -
  have "set [[CHR '' '']] \<subseteq> set WhiteSpace \<and> '' '' = concat [[CHR '' '']]"
    by (simp add: WhiteSpace_def)
  then have "blank '' ''" unfolding blank_def by (rule exI)
  then have "trim '' '' = []" by (simp only: trim_empty_iff)
  then show ?thesis
    unfolding match_call_None_iff [symmetric]
    by (simp add: match_call_here_def convertConditionToMatcher_def sublist_code)
qed

lemma requiredDimensions_loop_append:
  "requiredDimensions_loop dims conditions = conditions @ map pushed_condition dims"
proof (induction dims arbitrary: conditions)
  case Nil
  show ?case by simp
next
  case (Cons dim dims)
  have one: "requiredDimensions_loop (dim # dims) conditions =
             requiredDimensions_loop dims (conditions @ [pushed_condition dim])"
    by (simp add: pushed_condition_def split: option.splits)
  show ?case unfolding one Cons.IH by simp
qed

lemma first_call_nonempty: "first_call tok c x \<Longrightarrow> c \<noteq> []"
  by (auto simp: first_call_def call_at_def)

lemma requirement_expression_pushed: "requirement_expression dim (pushed_condition dim)"
proof (cases "valuePattern dim")
  case None
  then show ?thesis by (simp add: requirement_expression_def pushed_condition_def)
next
  case (Some vp)
  show ?thesis
  proof (cases "vp = []")
    case True
    have "\<And>tok x. \<not> first_call tok [] x" by (auto dest: first_call_nonempty)
    with True Some show ?thesis
      by (simp add: requirement_expression_def pushed_condition_def)
  next
    case False
    show ?thesis
    proof (cases "match_call ''$eq('' vp")
      case (Some x)
      then have fc: "first_call ''$eq('' vp x" by (simp only: match_call_Some_iff)
      have uniq: "\<And>y. first_call ''$eq('' vp y \<Longrightarrow> y = x"
        using Some by (simp add: match_call_Some_iff [symmetric])
      have nn: "\<not> no_call ''$eq('' vp"
        using Some by (simp add: match_call_None_iff [symmetric])
      from \<open>valuePattern dim = Some vp\<close> False Some uniq nn show ?thesis
        by (auto simp: requirement_expression_def pushed_condition_def)
    next
      case None
      then have nc: "no_call ''$eq('' vp" by (simp only: match_call_None_iff)
      have nf: "\<And>y. \<not> first_call ''$eq('' vp y"
        using None by (simp add: match_call_Some_iff [symmetric])
      show ?thesis
      proof (cases "match_call ''$prefix('' vp")
        case (Some x)
        have uniq: "\<And>y. first_call ''$prefix('' vp y \<Longrightarrow> y = x"
          using Some by (simp add: match_call_Some_iff [symmetric])
        have nn: "\<not> no_call ''$prefix('' vp"
          using Some by (simp add: match_call_None_iff [symmetric])
        from \<open>valuePattern dim = Some vp\<close> False None Some uniq nn nf show ?thesis
          by (auto simp: requirement_expression_def pushed_condition_def)
      next
        case None2: None
        have nf2: "\<And>y. \<not> first_call ''$prefix('' vp y"
          using None2 by (simp add: match_call_Some_iff [symmetric])
        from \<open>valuePattern dim = Some vp\<close> False None None2 nf nf2 show ?thesis
          by (auto simp: requirement_expression_def pushed_condition_def)
      qed
    qed
  qed
qed

text \<open>
  C7, as amended. The dimension-requirements translation returns \<open>isNotNull(content)\<close>
  when the list is missing or empty; otherwise it returns one expression for each
  requirement, in the order of the requirements, joined by a flat \<open>" and "\<close>:
  \<open>isNotNull(key)\<close> when no value pattern is supplied or it is the empty string;
  \<open>key == "X"\<close> when the pattern contains \<open>$eq(X)\<close>; \<open>matchesValue(key, "X*")\<close> when
  it contains no \<open>$eq\<close> call and contains \<open>$prefix(X)\<close>; and the exact match
  \<open>key == "valuePattern"\<close> when it contains neither.
\<close>

theorem convertRequiredDimensionsToMatcher_rules:
  "convertRequiredDimensionsToMatcher None = ''isNotNull(content)'' \<and>
   convertRequiredDimensionsToMatcher (Some []) = ''isNotNull(content)'' \<and>
   (dims \<noteq> [] \<longrightarrow>
      (\<exists>es. list_all2 requirement_expression dims es \<and>
            convertRequiredDimensionsToMatcher (Some dims) = join '' and '' es))"
proof (intro conjI impI)
  show "convertRequiredDimensionsToMatcher None = ''isNotNull(content)''"
    by (simp add: convertRequiredDimensionsToMatcher_def)
  show "convertRequiredDimensionsToMatcher (Some []) = ''isNotNull(content)''"
    by (simp add: convertRequiredDimensionsToMatcher_def)
next
  assume ne: "dims \<noteq> []"
  have "list_all2 requirement_expression dims (map pushed_condition dims)"
    by (simp add: list_all2_map2 list_all2_same requirement_expression_pushed)
  moreover have "convertRequiredDimensionsToMatcher (Some dims) =
                 join '' and '' (map pushed_condition dims)"
    using ne by (simp add: convertRequiredDimensionsToMatcher_def requiredDimensions_loop_append)
  ultimately show "\<exists>es. list_all2 requirement_expression dims es \<and>
            convertRequiredDimensionsToMatcher (Some dims) = join '' and '' es"
    by blast
qed

theorem convertRequiredDimensionsToMatcher_rules_witness:
  "convertRequiredDimensionsToMatcher
     (Some [\<lparr>Dimension.key = ''app'', valuePattern = Some ''$eq(web)''\<rparr>,
            \<lparr>Dimension.key = ''host'', valuePattern = None\<rparr>]) =
   ''app == \"web\" and isNotNull(host)''"
proof -
  let ?d1 = "\<lparr>Dimension.key = ''app'', valuePattern = Some ''$eq(web)''\<rparr>"
  let ?d2 = "\<lparr>Dimension.key = ''host'', valuePattern = None\<rparr>"
  have ne: "[?d1, ?d2] \<noteq> []" by simp
  from convertRequiredDimensionsToMatcher_rules [of "[?d1, ?d2]"] ne
  obtain es where es: "list_all2 requirement_expression [?d1, ?d2] es"
      "convertRequiredDimensionsToMatcher (Some [?d1, ?d2]) = join '' and '' es"
    by auto
  from es(1) obtain e1 e2 where e: "es = [e1, e2]" "requirement_expression ?d1 e1"
      "requirement_expression ?d2 e2"
    by (auto simp: list_all2_Cons1)
  have fc: "first_call ''$eq('' ''$eq(web)'' ''web''"
    unfolding match_call_Some_iff [symmetric] by (simp add: match_call_here_def)
  from e(2) fc have "e1 = ''app == \"web\"''"
    by (simp add: requirement_expression_def)
  moreover from e(3) have "e2 = ''isNotNull(host)''"
    by (simp add: requirement_expression_def)
  ultimately show ?thesis using es(2) e(1) by simp
qed

text \<open>
  The claim as stated fails on a value pattern that is supplied and empty: it holds no
  call, so the claim asks for the exact match \<open>k == ""\<close>.
\<close>

theorem convertRequiredDimensionsToMatcher_empty_pattern:
  "convertRequiredDimensionsToMatcher (Some [\<lparr>Dimension.key = ''k'', valuePattern = Some ''''\<rparr>]) =
     ''isNotNull(k)'' \<and>
   convertRequiredDimensionsToMatcher (Some [\<lparr>Dimension.key = ''k'', valuePattern = Some ''''\<rparr>]) \<noteq>
     ''k == \"\"''"
  by (simp add: convertRequiredDimensionsToMatcher_def)

subsection \<open>Extension-name cleaning\<close>

lemma replace_prefix_chain:
  "\<exists>p1 p2 p3.
      s = p1 @ p2 @ p3 @ replace_prefix P3 (replace_prefix P2 (replace_prefix P1 s)) \<and>
      p1 = (if prefix P1 s then P1 else []) \<and>
      p2 = (if prefix P2 (drop (length p1) s) then P2 else []) \<and>
      p3 = (if prefix P3 (drop (length p1 + length p2) s) then P3 else [])"
proof -
  define p1 where "p1 = (if prefix P1 s then P1 else [])"
  define r1 where "r1 = replace_prefix P1 s"
  define p2 where "p2 = (if prefix P2 r1 then P2 else [])"
  define r2 where "r2 = replace_prefix P2 r1"
  define p3 where "p3 = (if prefix P3 r2 then P3 else [])"
  have 1: "s = p1 @ r1" "r1 = drop (length p1) s"
    by (auto simp: p1_def r1_def replace_prefix_def prefix_def)
  have 2: "r1 = p2 @ r2" "r2 = drop (length p2) r1"
    by (auto simp: p2_def r2_def replace_prefix_def prefix_def)
  have 3: "r2 = p3 @ replace_prefix P3 r2"
    by (auto simp: p3_def replace_prefix_def prefix_def)
  from 1(2) 2(2) have r2: "r2 = drop (length p1 + length p2) s" by (simp add: add.commute)
  have "p1 @ p2 @ p3 @ replace_prefix P3 r2 = p1 @ p2 @ r2" by (simp add: 3 [symmetric])
  also have "\<dots> = p1 @ r1" by (simp add: 2(1) [symmetric])
  also have "\<dots> = s" by (simp add: 1(1) [symmetric])
  finally have "s = p1 @ p2 @ p3 @ replace_prefix P3 (replace_prefix P2 (replace_prefix P1 s))"
    by (simp add: r2_def r1_def)
  moreover have "p2 = (if prefix P2 (drop (length p1) s) then P2 else [])"
    unfolding p2_def 1(2) ..
  moreover have "p3 = (if prefix P3 (drop (length p1 + length p2) s) then P3 else [])"
    unfolding p3_def r2 ..
  ultimately show ?thesis using p1_def by (intro exI conjI)
qed

lemma replace_prefix_shorter: "p \<noteq> [] \<Longrightarrow> prefix p s \<Longrightarrow> length (replace_prefix p s) < length s"
  by (cases p) (auto simp: replace_prefix_def dest: prefix_length_le)

lemma replace_prefix_length: "length (replace_prefix p s) \<le> length s"
  by (simp add: replace_prefix_def)

lemma replace_prefix_id: "\<not> prefix p s \<Longrightarrow> replace_prefix p s = s"
  by (simp add: replace_prefix_def)

lemma replace_prefix_differs:
  assumes "P2 \<noteq> []" and "P3 \<noteq> []"
  shows "replace_prefix P3 (replace_prefix P2 r) \<noteq> r \<longleftrightarrow> prefix P2 r \<or> prefix P3 r"
proof (cases "prefix P2 r")
  case True
  with assms(1) have "length (replace_prefix P2 r) < length r" by (intro replace_prefix_shorter)
  with replace_prefix_length [of P3 "replace_prefix P2 r"]
  have "length (replace_prefix P3 (replace_prefix P2 r)) < length r" by simp
  with True show ?thesis by auto
next
  case False
  then have r: "replace_prefix P2 r = r" by (rule replace_prefix_id)
  show ?thesis
  proof (cases "prefix P3 r")
    case True
    with assms(2) have "length (replace_prefix P3 r) < length r" by (intro replace_prefix_shorter)
    with True r show ?thesis by auto
  next
    case False
    with r \<open>\<not> prefix P2 r\<close> show ?thesis by (simp add: replace_prefix_id)
  qed
qed

lemma first_match_differs:
  fixes P1 P2 P3 s :: string
  assumes "P2 \<noteq> []" and "P3 \<noteq> []"
  defines "r \<equiv> (if prefix P1 s then drop (length P1) s
                 else if prefix P2 s then drop (length P2) s
                 else if prefix P3 s then drop (length P3) s else s)"
  shows "replace_prefix P3 (replace_prefix P2 (replace_prefix P1 s)) \<noteq> r \<longleftrightarrow>
         (prefix P1 s \<and> (prefix P2 r \<or> prefix P3 r)) \<or>
         (\<not> prefix P1 s \<and> prefix P2 s \<and> prefix P3 r)"
proof (cases "prefix P1 s")
  case True
  then have "replace_prefix P1 s = r" by (simp add: r_def replace_prefix_def)
  with True replace_prefix_differs [OF assms(1,2), of r] show ?thesis by simp
next
  case n1: False
  then have 1: "replace_prefix P1 s = s" by (rule replace_prefix_id)
  show ?thesis
  proof (cases "prefix P2 s")
    case True
    with n1 have "replace_prefix P2 s = r" by (simp add: r_def replace_prefix_def)
    moreover have "replace_prefix P3 r \<noteq> r \<longleftrightarrow> prefix P3 r"
      using replace_prefix_shorter [OF assms(2), of r] replace_prefix_id [of P3 r] by auto
    ultimately show ?thesis using n1 True 1 by simp
  next
    case n2: False
    then have 2: "replace_prefix P2 s = s" by (rule replace_prefix_id)
    from n1 n2 have "replace_prefix P3 s = r" by (simp add: r_def replace_prefix_def)
    with n1 n2 1 2 show ?thesis by simp
  qed
qed

text \<open>
  C8, as amended. Extension-name cleaning applies three prefix removals one after the
  other, each to the result of the one before: \<open>custom:com.dynatrace.\<close>, then
  \<open>com.dynatrace.\<close>, then \<open>custom:\<close>. Each of the three is removed exactly when the
  text left by the removals before it begins with it, so up to three prefixes are
  removed. The output differs from that of the first matching rule alone in exactly
  two cases: the input begins with \<open>custom:com.dynatrace.\<close> and the rest begins with
  \<open>com.dynatrace.\<close> or with \<open>custom:\<close>; or the input begins with \<open>com.dynatrace.\<close>
  and the rest begins with \<open>custom:\<close>.
\<close>

theorem cleanExtensionName_sequential:
  "(\<exists>p1 p2 p3.
      extensionName = p1 @ p2 @ p3 @ cleanExtensionName extensionName \<and>
      p1 = (if prefix ''custom:com.dynatrace.'' extensionName then ''custom:com.dynatrace.'' else []) \<and>
      p2 = (if prefix ''com.dynatrace.'' (drop (length p1) extensionName)
            then ''com.dynatrace.'' else []) \<and>
      p3 = (if prefix ''custom:'' (drop (length p1 + length p2) extensionName)
            then ''custom:'' else [])) \<and>
   (cleanExtensionName extensionName \<noteq> stripFirstMatchingPrefix extensionName \<longleftrightarrow>
      (prefix ''custom:com.dynatrace.'' extensionName \<and>
         (prefix ''com.dynatrace.'' (stripFirstMatchingPrefix extensionName) \<or>
          prefix ''custom:'' (stripFirstMatchingPrefix extensionName))) \<or>
      (\<not> prefix ''custom:com.dynatrace.'' extensionName \<and>
         prefix ''com.dynatrace.'' extensionName \<and>
         prefix ''custom:'' (stripFirstMatchingPrefix extensionName)))"
proof
  show "\<exists>p1 p2 p3.
      extensionName = p1 @ p2 @ p3 @ cleanExtensionName extensionName \<and>
      p1 = (if prefix ''custom:com.dynatrace.'' extensionName then ''custom:com.dynatrace.'' else []) \<and>
      p2 = (if prefix ''com.dynatrace.'' (drop (length p1) extensionName)
            then ''com.dynatrace.'' else []) \<and>
      p3 = (if prefix ''custom:'' (drop (length p1 + length p2) extensionName)
            then ''custom:'' else [])"
    unfolding cleanExtensionName_def by (rule replace_prefix_chain)
next
  have ne: "''com.dynatrace.'' \<noteq> []" "''custom:'' \<noteq> []" by simp_all
  show "cleanExtensionName extensionName \<noteq> stripFirstMatchingPrefix extensionName \<longleftrightarrow>
      (prefix ''custom:com.dynatrace.'' extensionName \<and>
         (prefix ''com.dynatrace.'' (stripFirstMatchingPrefix extensionName) \<or>
          prefix ''custom:'' (stripFirstMatchingPrefix extensionName))) \<or>
      (\<not> prefix ''custom:com.dynatrace.'' extensionName \<and>
         prefix ''com.dynatrace.'' extensionName \<and>
         prefix ''custom:'' (stripFirstMatchingPrefix extensionName))"
    unfolding cleanExtensionName_def stripFirstMatchingPrefix_def
    by (rule first_match_differs [OF ne])
qed

theorem cleanExtensionName_sequential_witness:
  "cleanExtensionName ''com.dynatrace.custom:snmp'' = ''snmp'' \<and>
   stripFirstMatchingPrefix ''com.dynatrace.custom:snmp'' = ''custom:snmp''"
proof -
  from cleanExtensionName_sequential [of "''com.dynatrace.custom:snmp''"]
  obtain p1 p2 p3 where
    eq: "''com.dynatrace.custom:snmp'' = p1 @ p2 @ p3 @ cleanExtensionName ''com.dynatrace.custom:snmp''" and
    p1: "p1 = (if prefix ''custom:com.dynatrace.'' ''com.dynatrace.custom:snmp''
               then ''custom:com.dynatrace.'' else [])" and
    p2: "p2 = (if prefix ''com.dynatrace.'' (drop (length p1) ''com.dynatrace.custom:snmp'')
               then ''com.dynatrace.'' else [])" and
    p3: "p3 = (if prefix ''custom:'' (drop (length p1 + length p2) ''com.dynatrace.custom:snmp'')
               then ''custom:'' else [])"
    by (elim conjE exE)
  from p1 have 1: "p1 = []" by simp
  from p2 have 2: "p2 = ''com.dynatrace.''" unfolding 1 by simp
  from p3 have 3: "p3 = ''custom:''" unfolding 1 2 by simp
  from eq have "cleanExtensionName ''com.dynatrace.custom:snmp'' = ''snmp''"
    unfolding 1 2 3 by simp
  then show ?thesis by (simp add: stripFirstMatchingPrefix_def)
qed

text \<open>
  The claim as stated fails where the rest left by the first rule begins with the prefix
  of a later rule: two prefixes are removed.
\<close>

theorem cleanExtensionName_two_prefixes:
  "cleanExtensionName ''custom:com.dynatrace.com.dynatrace.foo'' = ''foo'' \<and>
   stripFirstMatchingPrefix ''custom:com.dynatrace.com.dynatrace.foo'' = ''com.dynatrace.foo''"
  by (simp add: cleanExtensionName_def replace_prefix_def stripFirstMatchingPrefix_def)

subsection \<open>Node compiler: what the loops preserve\<close>

lemma processMetricsSource_Inr:
  assumes "processMetricsSource type newName source rule ms ask pc w s = (Inr (ps, w'), s')"
  shows "source_output type newName source rule pc w ps w'"
  using assms unfolding processMetricsSource_def source_output_def Let_def
  by (auto split: prod.splits sum.splits if_splits)

lemma processLogsSource_Inr:
  assumes "processLogsSource type newName source rule ask pc w s = (Inr (ps, w'), s')"
  shows "source_output type newName source rule pc w ps w'"
  using assms unfolding processLogsSource_def source_output_def Let_def
  by (auto split: prod.splits sum.splits if_splits)

lemma ruleSources_loop_invariant:
  assumes step_m: "\<And>st type newName source rule ps w'. I st \<Longrightarrow>
            source_output type newName source rule (metricsCounter st)
              (entityTypesWithNodeExtraction st) ps w' \<Longrightarrow>
            I (st\<lparr>metricsProcessors := metricsProcessors st @ ps,
                  metricsCounter := metricsCounter st + length ps,
                  entityTypesWithNodeExtraction := w'\<rparr>)"
      and step_l: "\<And>st type newName source rule ps w'. I st \<Longrightarrow>
            source_output type newName source rule (logsCounter st)
              (entityTypesWithNodeExtraction st) ps w' \<Longrightarrow>
            I (st\<lparr>logsProcessors := logsProcessors st @ ps,
                  logsCounter := logsCounter st + length ps,
                  entityTypesWithNodeExtraction := w'\<rparr>)"
      and "I st"
      and "ruleSources_loop type newName rule srcs ms ask st s = (Inr st', s')"
  shows "I st'"
  using assms(3,4)
proof (induction srcs arbitrary: st s)
  case Nil
  then show ?case by simp
next
  case (Cons source rest)
  show ?case
  proof (cases "Source.sourceType source = ''Metrics''")
    case True
    with Cons.prems(2) obtain ps w' s1 where
      a: "processMetricsSource type newName source rule ms ask (metricsCounter st)
            (entityTypesWithNodeExtraction st) s = (Inr (ps, w'), s1)" and
      b: "ruleSources_loop type newName rule rest ms ask
            (st\<lparr>metricsProcessors := metricsProcessors st @ ps,
                metricsCounter := metricsCounter st + length ps,
                entityTypesWithNodeExtraction := w'\<rparr>) s1 = (Inr st', s')"
      by (auto split: prod.splits sum.splits)
    from a have "source_output type newName source rule (metricsCounter st)
                   (entityTypesWithNodeExtraction st) ps w'"
      by (rule processMetricsSource_Inr)
    with Cons.prems(1) have "I (st\<lparr>metricsProcessors := metricsProcessors st @ ps,
                metricsCounter := metricsCounter st + length ps,
                entityTypesWithNodeExtraction := w'\<rparr>)"
      by (rule step_m)
    then show ?thesis using b by (rule Cons.IH)
  next
    case notMetrics: False
    show ?thesis
    proof (cases "Source.sourceType source = ''Logs''")
      case True
      with notMetrics Cons.prems(2) obtain ps w' s1 where
        a: "processLogsSource type newName source rule ask (logsCounter st)
              (entityTypesWithNodeExtraction st) s = (Inr (ps, w'), s1)" and
        b: "ruleSources_loop type newName rule rest ms ask
              (st\<lparr>logsProcessors := logsProcessors st @ ps,
                  logsCounter := logsCounter st + length ps,
                  entityTypesWithNodeExtraction := w'\<rparr>) s1 = (Inr st', s')"
        by (auto split: prod.splits sum.splits)
      from a have "source_output type newName source rule (logsCounter st)
                     (entityTypesWithNodeExtraction st) ps w'"
        by (rule processLogsSource_Inr)
      with Cons.prems(1) have "I (st\<lparr>logsProcessors := logsProcessors st @ ps,
                  logsCounter := logsCounter st + length ps,
                  entityTypesWithNodeExtraction := w'\<rparr>)"
        by (rule step_l)
      then show ?thesis using b by (rule Cons.IH)
    next
      case False
      with notMetrics Cons.prems(2) have
        "ruleSources_loop type newName rule rest ms ask st s = (Inr st', s')"
        by simp
      with Cons.prems(1) show ?thesis by (rule Cons.IH)
    qed
  qed
qed


lemma typeRules_loop_invariant:
  assumes step_m: "\<And>st type newName source rule ps w'. I st \<Longrightarrow>
            source_output type newName source rule (metricsCounter st)
              (entityTypesWithNodeExtraction st) ps w' \<Longrightarrow>
            I (st\<lparr>metricsProcessors := metricsProcessors st @ ps,
                  metricsCounter := metricsCounter st + length ps,
                  entityTypesWithNodeExtraction := w'\<rparr>)"
      and step_l: "\<And>st type newName source rule ps w'. I st \<Longrightarrow>
            source_output type newName source rule (logsCounter st)
              (entityTypesWithNodeExtraction st) ps w' \<Longrightarrow>
            I (st\<lparr>logsProcessors := logsProcessors st @ ps,
                  logsCounter := logsCounter st + length ps,
                  entityTypesWithNodeExtraction := w'\<rparr>)"
      and "I st"
      and "typeRules_loop type newName rs ms ask st s = (Inr st', s')"
  shows "I st'"
  using assms(3,4)
proof (induction rs arbitrary: st s)
  case Nil
  then show ?case by simp
next
  case (Cons rule rest)
  from Cons.prems(2) obtain st1 s1 where
    a: "ruleSources_loop type newName rule (Rule.sources rule) ms ask st s = (Inr st1, s1)" and
    b: "typeRules_loop type newName rest ms ask st1 s1 = (Inr st', s')"
    by (auto split: prod.splits sum.splits)
  from step_m step_l Cons.prems(1) a have "I st1"
    by (rule ruleSources_loop_invariant)
  then show ?case using b by (rule Cons.IH)
qed

lemma topologyTypes_loop_invariant:
  assumes step_m: "\<And>st type newName source rule ps w'. I st \<Longrightarrow>
            source_output type newName source rule (metricsCounter st)
              (entityTypesWithNodeExtraction st) ps w' \<Longrightarrow>
            I (st\<lparr>metricsProcessors := metricsProcessors st @ ps,
                  metricsCounter := metricsCounter st + length ps,
                  entityTypesWithNodeExtraction := w'\<rparr>)"
      and step_l: "\<And>st type newName source rule ps w'. I st \<Longrightarrow>
            source_output type newName source rule (logsCounter st)
              (entityTypesWithNodeExtraction st) ps w' \<Longrightarrow>
            I (st\<lparr>logsProcessors := logsProcessors st @ ps,
                  logsCounter := logsCounter st + length ps,
                  entityTypesWithNodeExtraction := w'\<rparr>)"
      and "I st"
      and "topologyTypes_loop ts ms ask st tm s = (Inr st', tm', s')"
  shows "I st'"
  using assms(3,4)
proof (induction ts arbitrary: st tm s)
  case Nil
  then show ?case by simp
next
  case (Cons type rest)
  from Cons.prems(2) obtain newName s1 st1 s2 tm1 where
    a: "typeRules_loop type newName (rules type) ms ask st s1 = (Inr st1, s2)" and
    b: "topologyTypes_loop rest ms ask st1 tm1 s2 = (Inr st', tm', s')"
    by (auto simp: Let_def split: prod.splits sum.splits)
  from step_m step_l Cons.prems(1) a have "I st1"
    by (rule typeRules_loop_invariant)
  then show ?case using b by (rule Cons.IH)
qed

subsection \<open>Identity components\<close>

lemma createSmartscapeNodeProcessor_identity:
  "\<exists>nd. smartscapeNode (createSmartscapeNodeProcessor type newName source rule b m c) = Some nd \<and>
        idComponents nd \<noteq> []"
  by (simp add: createSmartscapeNodeProcessor_def Let_def split: option.splits)

lemma source_output_identity:
  assumes "source_output type newName source rule c w ps w'" and "p \<in> set ps"
  shows "\<exists>nd. smartscapeNode p = Some nd \<and> idComponents nd \<noteq> []"
  using assms createSmartscapeNodeProcessor_identity
  unfolding source_output_def by (elim disjE conjE exE) (simp_all, metis+)

text \<open>
  C6. Every processor that \<open>createSmartscapeNodeProcessor\<close> builds, with
  \<open>extractNode\<close> true or false and whatever the rule holds, has a non-empty list of
  identity components; and so has every processor that a run of the node compiler
  returns.
\<close>

theorem node_processors_have_identity:
  "(\<exists>nd. smartscapeNode (createSmartscapeNodeProcessor type newName source rule b m c) = Some nd \<and>
         idComponents nd \<noteq> []) \<and>
   (fst (createProcessorsFromTopology ts ms ask tm s) = Inr out \<longrightarrow>
      (\<forall>p\<in>set (metricsProcessors out @ logsProcessors out).
         \<exists>nd. smartscapeNode p = Some nd \<and> idComponents nd \<noteq> []))"
proof (intro conjI impI)
  show "\<exists>nd. smartscapeNode (createSmartscapeNodeProcessor type newName source rule b m c) = Some nd \<and>
         idComponents nd \<noteq> []"
    by (rule createSmartscapeNodeProcessor_identity)
next
  assume run: "fst (createProcessorsFromTopology ts ms ask tm s) = Inr out"
  define I where "I = (\<lambda>st :: NodeLoop. \<forall>p\<in>set (metricsProcessors st @ logsProcessors st).
                         \<exists>nd. smartscapeNode p = Some nd \<and> idComponents nd \<noteq> [])"
  define init :: NodeLoop where "init = \<lparr>metricsProcessors = [], logsProcessors = [], metricsCounter = 0,
      logsCounter = 0, entityTypesWithNodeExtraction = {}\<rparr>"
  from run obtain st' tm' s' where
    loop: "topologyTypes_loop ts ms ask init tm s = (Inr st', tm', s')" and
    out: "out = \<lparr>metricsProcessors = metricsProcessors st', logsProcessors = logsProcessors st'\<rparr>"
    unfolding createProcessorsFromTopology_def init_def
    by (auto split: prod.splits sum.splits)
  have "I init" by (simp add: I_def init_def)
  have "I st'"
  proof (rule topologyTypes_loop_invariant [where I = I, OF _ _ \<open>I init\<close> loop])
    fix st :: NodeLoop and type newName source rule ps w'
    assume "I st" and so: "source_output type newName source rule (metricsCounter st)
              (entityTypesWithNodeExtraction st) ps w'"
    then show "I (st\<lparr>metricsProcessors := metricsProcessors st @ ps,
                  metricsCounter := metricsCounter st + length ps,
                  entityTypesWithNodeExtraction := w'\<rparr>)"
      unfolding I_def using source_output_identity [OF so] by auto
  next
    fix st :: NodeLoop and type newName source rule ps w'
    assume "I st" and so: "source_output type newName source rule (logsCounter st)
              (entityTypesWithNodeExtraction st) ps w'"
    then show "I (st\<lparr>logsProcessors := logsProcessors st @ ps,
                  logsCounter := logsCounter st + length ps,
                  entityTypesWithNodeExtraction := w'\<rparr>)"
      unfolding I_def using source_output_identity [OF so] by auto
  qed
  then show "\<forall>p\<in>set (metricsProcessors out @ logsProcessors out).
         \<exists>nd. smartscapeNode p = Some nd \<and> idComponents nd \<noteq> []"
    by (simp add: I_def out)
qed


theorem node_processors_have_identity_witness:
  "\<exists>out. fst (createProcessorsFromTopology
                [\<lparr>TopologyType.name = ''cloudhub:org'', TopologyType.displayName = ''Org'',
                  rules = [\<lparr>idPattern = None, instanceNamePattern = None,
                            requiredDimensions = Some [], attributes = None,
                            Rule.sources = [\<lparr>Source.sourceType = ''Logs'', condition = None\<rparr>]\<rparr>]\<rparr>]
                None autoInputCallback None ()) = Inr out \<and>
         length (metricsProcessors out @ logsProcessors out) = 2 \<and>
         (\<forall>p\<in>set (metricsProcessors out @ logsProcessors out).
            \<exists>nd. smartscapeNode p = Some nd \<and> idComponents nd \<noteq> [])"
proof -
  let ?run = "fst (createProcessorsFromTopology
                [\<lparr>TopologyType.name = ''cloudhub:org'', TopologyType.displayName = ''Org'',
                  rules = [\<lparr>idPattern = None, instanceNamePattern = None,
                            requiredDimensions = Some [], attributes = None,
                            Rule.sources = [\<lparr>Source.sourceType = ''Logs'', condition = None\<rparr>]\<rparr>]\<rparr>]
                None autoInputCallback None ())"
  have "\<exists>out. ?run = Inr out \<and> length (metricsProcessors out @ logsProcessors out) = 2"
    by (simp add: createProcessorsFromTopology_def awaitInput_def autoInputCallback_def
          suggestNewTypeName_def toUpperCase_def toUpperCase_char_def replace_all_char_def
          processLogsSource_def convertRequiredDimensionsToMatcher_def Let_def)
  then obtain out where out: "?run = Inr out"
      "length (metricsProcessors out @ logsProcessors out) = 2"
    by blast
  from node_processors_have_identity [of _ _ _ _ _ _ _ _ None autoInputCallback None "()" out] out(1)
  have "\<forall>p\<in>set (metricsProcessors out @ logsProcessors out).
            \<exists>nd. smartscapeNode p = Some nd \<and> idComponents nd \<noteq> []"
    by simp
  with out show ?thesis by blast
qed

subsection \<open>The scenario of the specification\<close>

lemma suggestNewTypeName_foo_bar:
  "suggestNewTypeName ''custom:com.dynatrace.foo:bar'' = ''CUSTOM_COM.DYNATRACE.FOO_BAR''"
  by (simp add: suggestNewTypeName_def toUpperCase_def toUpperCase_char_def replace_all_char_def)

lemma convertConditionToMatcher_foo_bar:
  "convertConditionToMatcher (Some ''$prefix(foo.bar.)'') = ''matchesValue(metric.key, \"foo.bar.*\")''"
  by (simp add: convertConditionToMatcher_def trim_Cons_nonempty match_call_here_def)

lemma extractIdComponentsFromPattern_bar_id: "extractIdComponentsFromPattern ''bar-{id}'' = [''id'']"
  by (simp add: extractIdComponentsFromPattern_def match_brace_here_def slice_1_m1_def)

lemma sanitizeIdComponentName_id: "sanitizeIdComponentName ''id'' = ''id''"
  by (simp add: sanitizeIdComponentName_def toLowerCase_def toLowerCase_char_def replace_all_char_def)

text \<open>
  C4, as amended. For the type named \<open>custom:com.dynatrace.foo:bar\<close> with one rule, the
  id pattern \<open>bar-{id}\<close> and one Metrics source with the condition
  \<open>$prefix(foo.bar.)\<close>, and a Resolution Port that accepts every suggestion, compilation
  emits exactly two processors: an entity processor with the matcher
  \<open>matchesValue(metric.key, "foo.bar.*")\<close> and a node processor with the node type
  \<open>CUSTOM_COM.DYNATRACE.FOO_BAR\<close> and the single identity component
  \<open>{idComponent: "id", referencedFieldName: "id"}\<close>. This holds whatever the display
  name, the other fields of the rule, the metrics catalog and the name mapping are.
\<close>

theorem scenario_foo_bar:
  "\<exists>entity node entityNode nodeNode.
     fst (createProcessorsFromTopology
            [\<lparr>TopologyType.name = ''custom:com.dynatrace.foo:bar'', TopologyType.displayName = d,
              rules = [\<lparr>idPattern = Some ''bar-{id}'', instanceNamePattern = i,
                        requiredDimensions = rd, attributes = as,
                        Rule.sources = [\<lparr>Source.sourceType = ''Metrics'',
                                          condition = Some ''$prefix(foo.bar.)''\<rparr>]\<rparr>]\<rparr>]
            ms autoInputCallback tm s) =
       Inr \<lparr>metricsProcessors = [entity, node], logsProcessors = []\<rparr> \<and>
     matcher entity = ''matchesValue(metric.key, \"foo.bar.*\")'' \<and>
     smartscapeNode entity = Some entityNode \<and> \<not> extractNode entityNode \<and>
     smartscapeNode node = Some nodeNode \<and> extractNode nodeNode \<and>
     nodeType nodeNode = ''CUSTOM_COM.DYNATRACE.FOO_BAR'' \<and>
     idComponents nodeNode = [\<lparr>idComponent = ''id'', IdComponent.referencedFieldName = ''id''\<rparr>]"
  by (simp add: createProcessorsFromTopology_def awaitInput_def autoInputCallback_def
        suggestNewTypeName_foo_bar processMetricsSource_def convertConditionToMatcher_foo_bar
        createSmartscapeNodeProcessor_def extractIdComponentsFromPattern_bar_id
        sanitizeIdComponentName_id Let_def
      split: option.splits)


text \<open>
  The claim as stated fails on the node type: the suggested name is the whole type name
  in upper case with \<open>_\<close> for \<open>:\<close>, and no processor has the node type \<open>FOO_BAR\<close>.
\<close>

theorem scenario_foo_bar_node_type:
  "(case fst (createProcessorsFromTopology
               [\<lparr>TopologyType.name = ''custom:com.dynatrace.foo:bar'',
                 TopologyType.displayName = ''Bar'',
                 rules = [\<lparr>idPattern = Some ''bar-{id}'', instanceNamePattern = None,
                           requiredDimensions = None, attributes = None,
                           Rule.sources = [\<lparr>Source.sourceType = ''Metrics'',
                                             condition = Some ''$prefix(foo.bar.)''\<rparr>]\<rparr>]\<rparr>]
               None autoInputCallback None ()) of
      Inl e \<Rightarrow> []
    | Inr out \<Rightarrow>
        map (map_option nodeType \<circ> smartscapeNode) (metricsProcessors out @ logsProcessors out)) =
     [Some ''CUSTOM_COM.DYNATRACE.FOO_BAR'', Some ''CUSTOM_COM.DYNATRACE.FOO_BAR''] \<and>
   ''CUSTOM_COM.DYNATRACE.FOO_BAR'' \<noteq> ''FOO_BAR''"
  by (simp add: createProcessorsFromTopology_def awaitInput_def autoInputCallback_def
        suggestNewTypeName_foo_bar processMetricsSource_def convertConditionToMatcher_foo_bar
        createSmartscapeNodeProcessor_def findMatchingMetric_def Let_def)

subsection \<open>One node extraction for each resolved name\<close>

lemma createSmartscapeNodeProcessor_node:
  "carries_name n (createSmartscapeNodeProcessor type newName source rule b m c) = (newName = n)"
  "node_extraction_for n (createSmartscapeNodeProcessor type newName source rule b m c) =
     (newName = n \<and> b)"
  "entity_processor (createSmartscapeNodeProcessor type newName source rule b m c) = (\<not> b)"
  by (auto simp: carries_name_def node_extraction_for_def entity_processor_def
        createSmartscapeNodeProcessor_def Let_def)

lemma source_output_counts:
  assumes "source_output type newName source rule c w ps w'"
  shows "length (filter entity_processor ps) = 1"
    and "length (filter (node_extraction_for n) ps) = (if n = newName \<and> newName \<notin> w then 1 else 0)"
    and "\<forall>p\<in>set ps. carries_name newName p"
    and "w' = insert newName w"
  using assms unfolding source_output_def
  by (auto simp: createSmartscapeNodeProcessor_node)

lemma counted_step_metrics:
  assumes "counted st"
      and so: "source_output type newName source rule c (entityTypesWithNodeExtraction st) ps w'"
  shows "counted (st\<lparr>metricsProcessors := metricsProcessors st @ ps,
                     metricsCounter := metricsCounter st + length ps,
                     entityTypesWithNodeExtraction := w'\<rparr>)"
  using assms(1) source_output_counts(2-4) [OF so]
  unfolding counted_def by (auto simp: all_conj_distrib)

lemma counted_step_logs:
  assumes "counted st"
      and so: "source_output type newName source rule c (entityTypesWithNodeExtraction st) ps w'"
  shows "counted (st\<lparr>logsProcessors := logsProcessors st @ ps,
                     logsCounter := logsCounter st + length ps,
                     entityTypesWithNodeExtraction := w'\<rparr>)"
  using assms(1) source_output_counts(2-4) [OF so]
  unfolding counted_def by (auto simp: all_conj_distrib)


lemma ruleSources_loop_Cons:
  assumes "ruleSources_loop type newName rule (source # rest) ms ask st s = (Inr st', s')"
  obtains (compiled) st1 s1 where "compiled_source source"
      "ruleSources_loop type newName rule rest ms ask st1 s1 = (Inr st', s')"
      "entities st1 = entities st + 1"
      "entityTypesWithNodeExtraction st1 = insert newName (entityTypesWithNodeExtraction st)"
    | (skipped) "\<not> compiled_source source"
      "ruleSources_loop type newName rule rest ms ask st s = (Inr st', s')"
proof (cases "Source.sourceType source = ''Metrics''")
  case True
  with assms obtain ps w' s1 where
    a: "processMetricsSource type newName source rule ms ask (metricsCounter st)
          (entityTypesWithNodeExtraction st) s = (Inr (ps, w'), s1)" and
    b: "ruleSources_loop type newName rule rest ms ask
          (st\<lparr>metricsProcessors := metricsProcessors st @ ps,
              metricsCounter := metricsCounter st + length ps,
              entityTypesWithNodeExtraction := w'\<rparr>) s1 = (Inr st', s')"
    by (auto split: prod.splits sum.splits)
  note so = processMetricsSource_Inr [OF a]
  show ?thesis
  proof (rule compiled [OF _ b])
    show "compiled_source source" using True by (simp add: compiled_source_def)
    show "entities (st\<lparr>metricsProcessors := metricsProcessors st @ ps,
              metricsCounter := metricsCounter st + length ps,
              entityTypesWithNodeExtraction := w'\<rparr>) = entities st + 1"
      using source_output_counts(1) [OF so] by (simp add: entities_def)
    show "entityTypesWithNodeExtraction (st\<lparr>metricsProcessors := metricsProcessors st @ ps,
              metricsCounter := metricsCounter st + length ps,
              entityTypesWithNodeExtraction := w'\<rparr>) =
          insert newName (entityTypesWithNodeExtraction st)"
      using source_output_counts(4) [OF so] by simp
  qed
next
  case notMetrics: False
  show ?thesis
  proof (cases "Source.sourceType source = ''Logs''")
    case True
    with notMetrics assms obtain ps w' s1 where
      a: "processLogsSource type newName source rule ask (logsCounter st)
            (entityTypesWithNodeExtraction st) s = (Inr (ps, w'), s1)" and
      b: "ruleSources_loop type newName rule rest ms ask
            (st\<lparr>logsProcessors := logsProcessors st @ ps,
                logsCounter := logsCounter st + length ps,
                entityTypesWithNodeExtraction := w'\<rparr>) s1 = (Inr st', s')"
      by (auto split: prod.splits sum.splits)
    note so = processLogsSource_Inr [OF a]
    show ?thesis
    proof (rule compiled [OF _ b])
      show "compiled_source source" using True by (simp add: compiled_source_def)
      show "entities (st\<lparr>logsProcessors := logsProcessors st @ ps,
                logsCounter := logsCounter st + length ps,
                entityTypesWithNodeExtraction := w'\<rparr>) = entities st + 1"
        using source_output_counts(1) [OF so] by (simp add: entities_def)
      show "entityTypesWithNodeExtraction (st\<lparr>logsProcessors := logsProcessors st @ ps,
                logsCounter := logsCounter st + length ps,
                entityTypesWithNodeExtraction := w'\<rparr>) =
            insert newName (entityTypesWithNodeExtraction st)"
        using source_output_counts(4) [OF so] by simp
    qed
  next
    case False
    with notMetrics assms show ?thesis
      by (intro skipped) (simp_all add: compiled_source_def)
  qed
qed

lemma ruleSources_loop_effect:
  assumes "ruleSources_loop type newName rule srcs ms ask st s = (Inr st', s')"
  shows "entities st' = entities st + length (filter compiled_source srcs)"
    and "entityTypesWithNodeExtraction st' =
           (if \<exists>source\<in>set srcs. compiled_source source
            then insert newName (entityTypesWithNodeExtraction st)
            else entityTypesWithNodeExtraction st)"
  using assms
proof (induction srcs arbitrary: st s)
  case Nil
  { case 1 then show ?case by simp }
  { case 2 then show ?case by simp }
next
  case (Cons source rest)
  { case 1
    from 1 show ?case
    proof (cases rule: ruleSources_loop_Cons)
      case (compiled st1 s1)
      with Cons.IH(1) [OF compiled(2)] show ?thesis by simp
    next
      case skipped
      with Cons.IH(1) [OF skipped(2)] show ?thesis by simp
    qed }
  { case 2
    from 2 show ?case
    proof (cases rule: ruleSources_loop_Cons)
      case (compiled st1 s1)
      with Cons.IH(2) [OF compiled(2)] show ?thesis by auto
    next
      case skipped
      with Cons.IH(2) [OF skipped(2)] show ?thesis by simp
    qed }
qed

lemma typeRules_loop_effect:
  assumes "typeRules_loop type newName rs ms ask st s = (Inr st', s')"
  shows "entities st' = entities st +
           length (concat (map (\<lambda>rule. filter compiled_source (Rule.sources rule)) rs))"
    and "entityTypesWithNodeExtraction st' =
           (if concat (map (\<lambda>rule. filter compiled_source (Rule.sources rule)) rs) \<noteq> []
            then insert newName (entityTypesWithNodeExtraction st)
            else entityTypesWithNodeExtraction st)"
  using assms
proof (induction rs arbitrary: st s)
  case Nil
  { case 1 then show ?case by simp }
  { case 2 then show ?case by simp }
next
  case (Cons rule rest)
  { case 1
    then obtain st1 s1 where
      a: "ruleSources_loop type newName rule (Rule.sources rule) ms ask st s = (Inr st1, s1)" and
      b: "typeRules_loop type newName rest ms ask st1 s1 = (Inr st', s')"
      by (auto split: prod.splits sum.splits)
    from ruleSources_loop_effect(1) [OF a] Cons.IH(1) [OF b] show ?case by simp }
  { case 2
    then obtain st1 s1 where
      a: "ruleSources_loop type newName rule (Rule.sources rule) ms ask st s = (Inr st1, s1)" and
      b: "typeRules_loop type newName rest ms ask st1 s1 = (Inr st', s')"
      by (auto split: prod.splits sum.splits)
    from ruleSources_loop_effect(2) [OF a] Cons.IH(2) [OF b] show ?case
      by (auto simp: filter_empty_conv) }
qed


lemma topologyTypes_loop_Cons:
  assumes "topologyTypes_loop (type # rest) ms ask st tm s = (Inr st', tm', s')"
  obtains newName s1 st1 s2 where
      "awaitInput ask (''Enter new name for type \"'' @ TopologyType.name type @ ''\"'')
         (suggestNewTypeName (TopologyType.name type)) s = (Inr newName, s1)"
      "typeRules_loop type newName (rules type) ms ask st s1 = (Inr st1, s2)"
      "topologyTypes_loop rest ms ask st1
         (case tm of None \<Rightarrow> None | Some m \<Rightarrow> Some (m(TopologyType.name type \<mapsto> newName))) s2 =
       (Inr st', tm', s')"
  using assms by (auto simp: Let_def split: prod.splits sum.splits)

lemma topologyTypes_loop_effect:
  assumes "topologyTypes_loop ts ms ask st tm s = (Inr st', tm', s')"
  shows "entities st' = entities st + length (concat (map compiled_sources ts))"
    and "entityTypesWithNodeExtraction st \<subseteq> entityTypesWithNodeExtraction st'"
  using assms
proof (induction ts arbitrary: st tm s)
  case Nil
  { case 1 then show ?case by simp }
  { case 2 then show ?case by simp }
next
  case (Cons type rest)
  { case 1
    from 1 obtain newName s1 st1 s2 tm1 where
      a: "typeRules_loop type newName (rules type) ms ask st s1 = (Inr st1, s2)" and
      b: "topologyTypes_loop rest ms ask st1 tm1 s2 = (Inr st', tm', s')"
      by (rule topologyTypes_loop_Cons)
    from typeRules_loop_effect(1) [OF a] Cons.IH(1) [OF b] show ?case
      by (simp add: compiled_sources_def) }
  { case 2
    from 2 obtain newName s1 st1 s2 tm1 where
      a: "typeRules_loop type newName (rules type) ms ask st s1 = (Inr st1, s2)" and
      b: "topologyTypes_loop rest ms ask st1 tm1 s2 = (Inr st', tm', s')"
      by (rule topologyTypes_loop_Cons)
    from typeRules_loop_effect(2) [OF a] Cons.IH(2) [OF b] show ?case
      by (auto split: if_splits) }
qed

lemma topologyTypes_loop_mapping:
  assumes "topologyTypes_loop ts ms ask st (Some m) s = (res, tm', s')"
  shows "\<exists>m'. tm' = Some m' \<and> (\<forall>k. k \<notin> TopologyType.name ` set ts \<longrightarrow> m' k = m k)"
  using assms
proof (induction ts arbitrary: st m s)
  case Nil
  then show ?case by auto
next
  case (Cons type rest)
  show ?case
  proof (cases "awaitInput ask (''Enter new name for type \"'' @ TopologyType.name type @ ''\"'')
                  (suggestNewTypeName (TopologyType.name type)) s")
    case (Pair r s1)
    show ?thesis
    proof (cases r)
      case (Inl e)
      with Pair Cons.prems show ?thesis by auto
    next
      case (Inr newName)
      show ?thesis
      proof (cases "typeRules_loop type newName (rules type) ms ask st s1")
        case rules: (Pair r2 s2)
        show ?thesis
        proof (cases r2)
          case (Inl e)
          with Pair Inr rules Cons.prems show ?thesis by (auto simp: Let_def)
        next
          case inr2: (Inr st1)
          with Pair Inr rules Cons.prems have
            "topologyTypes_loop rest ms ask st1 (Some (m(TopologyType.name type \<mapsto> newName))) s2 =
             (res, tm', s')"
            by (simp add: Let_def)
          from Cons.IH [OF this] show ?thesis by auto
        qed
      qed
    qed
  qed
qed

lemma topologyTypes_loop_resolved:
  assumes "topologyTypes_loop ts ms ask st (Some m) s = (Inr st', tm', s')"
      and "distinct (map TopologyType.name ts)"
  shows "\<exists>m'. tm' = Some m' \<and>
           (\<forall>t\<in>set ts. compiled_sources t \<noteq> [] \<longrightarrow>
              (\<exists>n\<in>entityTypesWithNodeExtraction st'. m' (TopologyType.name t) = Some n))"
  using assms
proof (induction ts arbitrary: st m s)
  case Nil
  then show ?case by auto
next
  case (Cons type rest)
  from Cons.prems(1) obtain newName s1 st1 s2 where
    a: "typeRules_loop type newName (rules type) ms ask st s1 = (Inr st1, s2)" and
    b: "topologyTypes_loop rest ms ask st1 (Some (m(TopologyType.name type \<mapsto> newName))) s2 =
        (Inr st', tm', s')"
    by (rule topologyTypes_loop_Cons) simp
  from Cons.prems(2) have d: "distinct (map TopologyType.name rest)" and nin: "TopologyType.name type \<notin> TopologyType.name ` set rest"
    by auto
  from Cons.IH [OF b d] obtain m' where m': "tm' = Some m'"
      "\<forall>t\<in>set rest. compiled_sources t \<noteq> [] \<longrightarrow>
          (\<exists>n\<in>entityTypesWithNodeExtraction st'. m' (TopologyType.name t) = Some n)"
    by blast
  from topologyTypes_loop_mapping [OF b] m'(1) nin have here: "m' (TopologyType.name type) = Some newName"
    by auto
  have "newName \<in> entityTypesWithNodeExtraction st'" if "compiled_sources type \<noteq> []"
  proof -
    from that typeRules_loop_effect(2) [OF a]
    have "entityTypesWithNodeExtraction st1 = insert newName (entityTypesWithNodeExtraction st)"
      unfolding compiled_sources_def by (simp del: concat_eq_Nil_conv)
    with topologyTypes_loop_effect(2) [OF b] show ?thesis by auto
  qed
  with here m' show ?case by auto
qed


lemma topologyTypes_loop_append:
  "topologyTypes_loop (ts1 @ ts2) ms ask st tm s =
     (case topologyTypes_loop ts1 ms ask st tm s of
        (Inl e, m, s') \<Rightarrow> (Inl e, m, s')
      | (Inr st1, m1, s1) \<Rightarrow> topologyTypes_loop ts2 ms ask st1 m1 s1)"
proof (induction ts1 arbitrary: st tm s)
  case Nil
  show ?case by simp
next
  case (Cons type rest)
  show ?case
    by (simp add: Cons.IH Let_def split: prod.splits sum.splits)
qed


text \<open>
  C1. In every run of the node compiler that returns, over any list of types and with
  any answers of the Resolution Port, the emitted processors with \<open>extractNode = true\<close>
  that carry a given resolved name number exactly one when some emitted processor
  carries that name, and none otherwise. Every Metrics or Logs source yields exactly one
  entity processor, so the entity processors number as many as those sources. For
  every type of the list with at least one such source, the name that the Port
  answers to its name prompt, asked when the types before it have been compiled, has
  exactly one node-extraction processor; when the type names are pairwise distinct,
  that is the name the mapping records for the type.
\<close>

theorem one_node_extraction_per_name:
  assumes "createProcessorsFromTopology ts ms ask tm s = (Inr out, tm', s')"
  shows "(\<forall>n. length (filter (node_extraction_for n) (metricsProcessors out @ logsProcessors out)) =
              (if \<exists>p\<in>set (metricsProcessors out @ logsProcessors out). carries_name n p
               then 1 else 0)) \<and>
         length (filter entity_processor (metricsProcessors out @ logsProcessors out)) =
           length (concat (map compiled_sources ts)) \<and>
         (\<forall>m. tm = Some m \<and> distinct (map TopologyType.name ts) \<longrightarrow>
            (\<exists>m'. tm' = Some m' \<and>
               (\<forall>t\<in>set ts. compiled_sources t \<noteq> [] \<longrightarrow>
                  (\<exists>n. m' (TopologyType.name t) = Some n \<and>
                       length (filter (node_extraction_for n)
                                 (metricsProcessors out @ logsProcessors out)) = 1)))) \<and>
         (\<forall>ts1 t ts2. ts = ts1 @ t # ts2 \<and> compiled_sources t \<noteq> [] \<longrightarrow>
            (\<exists>out1 m1 s1 n s1'.
               createProcessorsFromTopology ts1 ms ask tm s = (Inr out1, m1, s1) \<and>
               awaitInput ask (''Enter new name for type \"'' @ TopologyType.name t @ ''\"'')
                 (suggestNewTypeName (TopologyType.name t)) s1 = (Inr n, s1') \<and>
               length (filter (node_extraction_for n)
                         (metricsProcessors out @ logsProcessors out)) = 1))"
proof -
  define init :: NodeLoop where "init = \<lparr>metricsProcessors = [], logsProcessors = [],
      metricsCounter = 0, logsCounter = 0, entityTypesWithNodeExtraction = {}\<rparr>"
  from assms obtain st' where
    loop: "topologyTypes_loop ts ms ask init tm s = (Inr st', tm', s')" and
    out: "out = \<lparr>metricsProcessors = metricsProcessors st', logsProcessors = logsProcessors st'\<rparr>"
    unfolding createProcessorsFromTopology_def init_def
    by (auto split: prod.splits sum.splits)
  let ?all = "metricsProcessors out @ logsProcessors out"
  have all: "?all = metricsProcessors st' @ logsProcessors st'" by (simp add: out)
  have "counted init" by (simp add: counted_def init_def)
  have c: "counted st'"
  proof (rule topologyTypes_loop_invariant [where I = counted, OF _ _ \<open>counted init\<close> loop])
    fix st :: NodeLoop and type newName source rule ps w'
    assume "counted st" and "source_output type newName source rule (metricsCounter st)
              (entityTypesWithNodeExtraction st) ps w'"
    then show "counted (st\<lparr>metricsProcessors := metricsProcessors st @ ps,
                  metricsCounter := metricsCounter st + length ps,
                  entityTypesWithNodeExtraction := w'\<rparr>)"
      by (rule counted_step_metrics)
  next
    fix st :: NodeLoop and type newName source rule ps w'
    assume "counted st" and "source_output type newName source rule (logsCounter st)
              (entityTypesWithNodeExtraction st) ps w'"
    then show "counted (st\<lparr>logsProcessors := logsProcessors st @ ps,
                  logsCounter := logsCounter st + length ps,
                  entityTypesWithNodeExtraction := w'\<rparr>)"
      by (rule counted_step_logs)
  qed
  have marked: "(\<exists>p\<in>set ?all. carries_name n p) \<longleftrightarrow> n \<in> entityTypesWithNodeExtraction st'" for n
  proof
    assume "\<exists>p\<in>set ?all. carries_name n p"
    then obtain p where p: "p \<in> set ?all" "carries_name n p" by blast
    with c obtain k where k: "k \<in> entityTypesWithNodeExtraction st'" "carries_name k p"
      unfolding counted_def all by blast
    from p(2) k(2) have "k = n" by (auto simp: carries_name_def split: option.splits)
    with k(1) show "n \<in> entityTypesWithNodeExtraction st'" by simp
  next
    assume "n \<in> entityTypesWithNodeExtraction st'"
    with c have "length (filter (node_extraction_for n) ?all) = 1"
      unfolding counted_def all by simp
    then have "filter (node_extraction_for n) ?all \<noteq> []" by auto
    then obtain p where "p \<in> set ?all" "node_extraction_for n p"
      by (auto simp: filter_empty_conv)
    then show "\<exists>p\<in>set ?all. carries_name n p"
      by (auto simp: carries_name_def node_extraction_for_def split: option.splits)
  qed
  have one: "\<forall>n. length (filter (node_extraction_for n) ?all) =
              (if \<exists>p\<in>set ?all. carries_name n p then 1 else 0)"
    using c unfolding marked unfolding counted_def all by simp
  have two: "length (filter entity_processor ?all) = length (concat (map compiled_sources ts))"
    using topologyTypes_loop_effect(1) [OF loop] by (simp add: entities_def init_def all)
  have three: "\<exists>m'. tm' = Some m' \<and>
               (\<forall>t\<in>set ts. compiled_sources t \<noteq> [] \<longrightarrow>
                  (\<exists>n. m' (TopologyType.name t) = Some n \<and>
                       length (filter (node_extraction_for n) ?all) = 1))"
    if "tm = Some m" "distinct (map TopologyType.name ts)" for m
  proof -
    from loop that(1) have "topologyTypes_loop ts ms ask init (Some m) s = (Inr st', tm', s')"
      by simp
    from topologyTypes_loop_resolved [OF this that(2)] obtain m' where m': "tm' = Some m'"
        "\<forall>t\<in>set ts. compiled_sources t \<noteq> [] \<longrightarrow>
           (\<exists>n\<in>entityTypesWithNodeExtraction st'. m' (TopologyType.name t) = Some n)"
      by blast
    have "length (filter (node_extraction_for n) ?all) = 1"
      if "n \<in> entityTypesWithNodeExtraction st'" for n
      using c that unfolding counted_def all by simp
    with m' show ?thesis by blast
  qed
  have four: "\<exists>out1 m1 s1 n s1'.
               createProcessorsFromTopology ts1 ms ask tm s = (Inr out1, m1, s1) \<and>
               awaitInput ask (''Enter new name for type \"'' @ TopologyType.name t @ ''\"'')
                 (suggestNewTypeName (TopologyType.name t)) s1 = (Inr n, s1') \<and>
               length (filter (node_extraction_for n) ?all) = 1"
    if split: "ts = ts1 @ t # ts2" and cs: "compiled_sources t \<noteq> []" for ts1 t ts2
  proof -
    from loop split obtain st1 m1 s1 where
      l1: "topologyTypes_loop ts1 ms ask init tm s = (Inr st1, m1, s1)" and
      l2: "topologyTypes_loop (t # ts2) ms ask st1 m1 s1 = (Inr st', tm', s')"
      by (auto simp: topologyTypes_loop_append split: prod.splits sum.splits)
    from l2 obtain n s1' st2 s2 tm2 where
      aw: "awaitInput ask (''Enter new name for type \"'' @ TopologyType.name t @ ''\"'')
             (suggestNewTypeName (TopologyType.name t)) s1 = (Inr n, s1')" and
      tr: "typeRules_loop t n (rules t) ms ask st1 s1' = (Inr st2, s2)" and
      rest: "topologyTypes_loop ts2 ms ask st2 tm2 s2 = (Inr st', tm', s')"
      by (rule topologyTypes_loop_Cons)
    from cs typeRules_loop_effect(2) [OF tr]
    have "entityTypesWithNodeExtraction st2 = insert n (entityTypesWithNodeExtraction st1)"
      unfolding compiled_sources_def by (simp del: concat_eq_Nil_conv)
    with topologyTypes_loop_effect(2) [OF rest]
    have "n \<in> entityTypesWithNodeExtraction st'" by auto
    with c have count: "length (filter (node_extraction_for n) ?all) = 1"
      unfolding counted_def all by simp
    from l1 have "createProcessorsFromTopology ts1 ms ask tm s =
        (Inr \<lparr>metricsProcessors = metricsProcessors st1,
              logsProcessors = logsProcessors st1\<rparr>, m1, s1)"
      by (simp add: createProcessorsFromTopology_def init_def)
    with aw count show ?thesis by (intro exI conjI)
  qed
  show ?thesis
  proof (intro conjI)
    show "\<forall>n. length (filter (node_extraction_for n) ?all) =
              (if \<exists>p\<in>set ?all. carries_name n p then 1 else 0)"
      by (rule one)
    show "length (filter entity_processor ?all) = length (concat (map compiled_sources ts))"
      by (rule two)
    show "\<forall>m. tm = Some m \<and> distinct (map TopologyType.name ts) \<longrightarrow>
            (\<exists>m'. tm' = Some m' \<and>
               (\<forall>t\<in>set ts. compiled_sources t \<noteq> [] \<longrightarrow>
                  (\<exists>n. m' (TopologyType.name t) = Some n \<and>
                       length (filter (node_extraction_for n) ?all) = 1)))"
      using three by (intro allI impI) (elim conjE)
    show "\<forall>ts1 t ts2. ts = ts1 @ t # ts2 \<and> compiled_sources t \<noteq> [] \<longrightarrow>
            (\<exists>out1 m1 s1 n s1'.
               createProcessorsFromTopology ts1 ms ask tm s = (Inr out1, m1, s1) \<and>
               awaitInput ask (''Enter new name for type \"'' @ TopologyType.name t @ ''\"'')
                 (suggestNewTypeName (TopologyType.name t)) s1 = (Inr n, s1') \<and>
               length (filter (node_extraction_for n) ?all) = 1)"
      using four by (intro allI impI) (elim conjE)
  qed
qed


lemma suggestNewTypeName_cloudhub:
  "suggestNewTypeName ''cloudhub:org'' = ''CLOUDHUB_ORG''"
  "suggestNewTypeName ''cloudhub:env'' = ''CLOUDHUB_ENV''"
  by (simp_all add: suggestNewTypeName_def toUpperCase_def toUpperCase_char_def
        replace_all_char_def)

lemma convertConditionToMatcher_cloudhub:
  "convertConditionToMatcher (Some ''$prefix(cloudhub.org.)'') =
     ''matchesValue(metric.key, \"cloudhub.org.*\")''"
  "convertConditionToMatcher None = ''isNotNull(metric.key)''"
  by (simp_all add: convertConditionToMatcher_def trim_Cons_nonempty match_call_here_def)

theorem one_node_extraction_per_name_witness:
  "\<exists>out tm' s'.
     createProcessorsFromTopology
       [\<lparr>TopologyType.name = ''cloudhub:org'', TopologyType.displayName = ''Org'',
         rules = [\<lparr>idPattern = Some ''org-{org.id}'', instanceNamePattern = None,
                   requiredDimensions = None, attributes = None,
                   Rule.sources = [\<lparr>Source.sourceType = ''Metrics'',
                                     condition = Some ''$prefix(cloudhub.org.)''\<rparr>,
                                   \<lparr>Source.sourceType = ''Logs'', condition = None\<rparr>]\<rparr>,
                  \<lparr>idPattern = None, instanceNamePattern = None,
                   requiredDimensions = None, attributes = None,
                   Rule.sources = [\<lparr>Source.sourceType = ''Events'', condition = None\<rparr>,
                                   \<lparr>Source.sourceType = ''Metrics'', condition = None\<rparr>]\<rparr>]\<rparr>,
        \<lparr>TopologyType.name = ''cloudhub:env'', TopologyType.displayName = ''Env'',
         rules = [\<lparr>idPattern = None, instanceNamePattern = None,
                   requiredDimensions = None, attributes = None,
                   Rule.sources = [\<lparr>Source.sourceType = ''Logs'', condition = None\<rparr>]\<rparr>]\<rparr>]
       None autoInputCallback (Some Map.empty) () = (Inr out, tm', s') \<and>
     length (metricsProcessors out @ logsProcessors out) = 6 \<and>
     length (filter entity_processor (metricsProcessors out @ logsProcessors out)) = 4 \<and>
     length (filter (node_extraction_for ''CLOUDHUB_ORG'')
               (metricsProcessors out @ logsProcessors out)) = 1"
proof -
  let ?org = "\<lparr>TopologyType.name = ''cloudhub:org'', TopologyType.displayName = ''Org'',
         rules = [\<lparr>idPattern = Some ''org-{org.id}'', instanceNamePattern = None,
                   requiredDimensions = None, attributes = None,
                   Rule.sources = [\<lparr>Source.sourceType = ''Metrics'',
                                     condition = Some ''$prefix(cloudhub.org.)''\<rparr>,
                                   \<lparr>Source.sourceType = ''Logs'', condition = None\<rparr>]\<rparr>,
                  \<lparr>idPattern = None, instanceNamePattern = None,
                   requiredDimensions = None, attributes = None,
                   Rule.sources = [\<lparr>Source.sourceType = ''Events'', condition = None\<rparr>,
                                   \<lparr>Source.sourceType = ''Metrics'', condition = None\<rparr>]\<rparr>]\<rparr>"
  let ?env = "\<lparr>TopologyType.name = ''cloudhub:env'', TopologyType.displayName = ''Env'',
         rules = [\<lparr>idPattern = None, instanceNamePattern = None,
                   requiredDimensions = None, attributes = None,
                   Rule.sources = [\<lparr>Source.sourceType = ''Logs'', condition = None\<rparr>]\<rparr>]\<rparr>"
  let ?run = "createProcessorsFromTopology [?org, ?env] None autoInputCallback (Some Map.empty) ()"
  have "\<exists>out m' s'. ?run = (Inr out, Some m', s') \<and> m' ''cloudhub:org'' = Some ''CLOUDHUB_ORG'' \<and>
          length (metricsProcessors out @ logsProcessors out) = 6"
    by (simp add: createProcessorsFromTopology_def awaitInput_def autoInputCallback_def
          suggestNewTypeName_cloudhub processMetricsSource_def processLogsSource_def
          convertConditionToMatcher_cloudhub convertRequiredDimensionsToMatcher_def
          findMatchingMetric_def Let_def)
  then obtain out m' s' where run: "?run = (Inr out, Some m', s')"
      and org: "m' ''cloudhub:org'' = Some ''CLOUDHUB_ORG''"
      and len: "length (metricsProcessors out @ logsProcessors out) = 6"
    by blast
  have d: "distinct (map TopologyType.name [?org, ?env])" by simp
  have cs: "compiled_sources ?org \<noteq> []" "length (concat (map compiled_sources [?org, ?env])) = 4"
    by (simp_all add: compiled_sources_def compiled_source_def)
  note counts = one_node_extraction_per_name [OF run]
  from counts cs(2) have ent:
    "length (filter entity_processor (metricsProcessors out @ logsProcessors out)) = 4"
    by simp
  have "\<exists>m''. Some m' = Some m'' \<and>
               (\<forall>t\<in>set [?org, ?env]. compiled_sources t \<noteq> [] \<longrightarrow>
                  (\<exists>n. m'' (TopologyType.name t) = Some n \<and>
                       length (filter (node_extraction_for n)
                                 (metricsProcessors out @ logsProcessors out)) = 1))"
    by (rule counts [THEN conjunct2, THEN conjunct2, THEN conjunct1, rule_format, of Map.empty,
          OF conjI [OF refl d]])
  then have "compiled_sources ?org \<noteq> [] \<longrightarrow>
               (\<exists>n. m' (TopologyType.name ?org) = Some n \<and>
                    length (filter (node_extraction_for n)
                              (metricsProcessors out @ logsProcessors out)) = 1)"
    by (elim exE conjE) (simp del: filter_append)
  with cs(1) org
  have "length (filter (node_extraction_for ''CLOUDHUB_ORG'')
                  (metricsProcessors out @ logsProcessors out)) = 1"
    by (simp del: filter_append)
  with run len ent show ?thesis by blast
qed


subsection \<open>A recorded run is the run, and its log\<close>

lemma answered_since_refl: "answered_since log log e"
  by (simp add: answered_since_def)

lemma answered_since_trans:
  assumes "answered_since log log1 None" and "answered_since log1 log2 e"
  shows "answered_since log log2 e"
proof -
  from assms(1) obtain new1 where 1: "log1 = log @ new1" "\<forall>c\<in>set new1. truthy (answer c)"
    by (auto simp: answered_since_def)
  from assms(2) obtain new2 where 2: "log2 = log1 @ new2"
      "e \<noteq> Some UserCancelled \<longrightarrow> (\<forall>c\<in>set new2. truthy (answer c))"
    by (auto simp: answered_since_def)
  from 1 2 have "log2 = log @ (new1 @ new2)"
      "e \<noteq> Some UserCancelled \<longrightarrow> (\<forall>c\<in>set (new1 @ new2). truthy (answer c))"
    by auto
  then show ?thesis unfolding answered_since_def by blast
qed

lemma awaitInput_recording:
  assumes "awaitInput (recording ask) p v (s, log) = (r, (s', log'))"
  shows "awaitInput ask p v s = (r, s')"
    and "log' = log @ [\<lparr>prompt = p, suggestedValue = v, answer = fst (ask s p v)\<rparr>]"
    and "r \<noteq> Inl UserCancelled \<Longrightarrow> truthy (fst (ask s p v))"
    and "answered_since log log' (failure r)"
proof -
  obtain a s1 where ask: "ask s p v = (a, s1)" by (cases "ask s p v")
  with assms show 1: "awaitInput ask p v s = (r, s')"
    by (auto simp: awaitInput_def recording_def split: option.splits if_splits)
  from ask assms show 2: "log' = log @ [\<lparr>prompt = p, suggestedValue = v, answer = fst (ask s p v)\<rparr>]"
    by (auto simp: awaitInput_def recording_def split: option.splits if_splits)
  from ask assms show 3: "r \<noteq> Inl UserCancelled \<Longrightarrow> truthy (fst (ask s p v))"
    by (auto simp: awaitInput_def recording_def truthy_def split: option.splits if_splits)
  show "answered_since log log' (failure r)"
    unfolding answered_since_def using 2 3
    by (cases r) (auto simp: failure_def)
qed

lemma failure_simps [simp]: "failure (Inl e) = Some e" "failure (Inr x) = None"
  by (simp_all add: failure_def)

lemma processMetricsSource_recording:
  assumes "processMetricsSource type newName source rule ms (recording ask) pc w (s, log) =
           (r, (s', log'))"
  shows "processMetricsSource type newName source rule ms ask pc w s = (r, s')"
    and "answered_since log log' (failure r)"
proof -
  let ?p1 = "''Enter matcher condition for entity extraction (extractNode: false) for \"'' @
              TopologyType.displayName type @ ''\"''"
  let ?v1 = "convertConditionToMatcher (condition source)"
  obtain r1 s1 log1 where a1: "awaitInput (recording ask) ?p1 ?v1 (s, log) = (r1, (s1, log1))"
    by (cases "awaitInput (recording ask) ?p1 ?v1 (s, log)") auto
  note f1 = awaitInput_recording(1,4) [OF a1]
  show "processMetricsSource type newName source rule ms ask pc w s = (r, s')"
    and "answered_since log log' (failure r)"
  proof (atomize (full), cases r1)
    case (Inl e)
    with assms a1 f1 show "processMetricsSource type newName source rule ms ask pc w s = (r, s') \<and>
        answered_since log log' (failure r)"
      by (auto simp: processMetricsSource_def Let_def)
  next
    case (Inr entityMatcher)
    show "processMetricsSource type newName source rule ms ask pc w s = (r, s') \<and>
        answered_since log log' (failure r)"
    proof (cases "newName \<in> w")
      case True
      with Inr assms a1 f1 show ?thesis
        by (auto simp: processMetricsSource_def Let_def)
    next
      case False
      let ?p2 = "''Enter matcher condition for node extraction (extractNode: true) for \"'' @
                 TopologyType.displayName type @ ''\"''"
      let ?v2 = "case findMatchingMetric (condition source) ms of
                   None \<Rightarrow> ?v1
                 | Some k \<Rightarrow> if k = [] then ?v1 else ''matchesValue(metric.key, \"'' @ k @ ''\")''"
      obtain r2 s2 log2 where
        a2: "awaitInput (recording ask) ?p2 ?v2 (s1, log1) = (r2, (s2, log2))"
        by (cases "awaitInput (recording ask) ?p2 ?v2 (s1, log1)") auto
      note f2 = awaitInput_recording(1,4) [OF a2]
      from Inr f1(2) f2(2) have tr: "answered_since log log2 (failure r2)"
        by (auto intro: answered_since_trans)
      from False Inr assms a1 a2 f1(1) f2(1) tr show ?thesis
        by (cases r2) (auto simp: processMetricsSource_def Let_def)
    qed
  qed
qed


lemma processLogsSource_recording:
  assumes "processLogsSource type newName source rule (recording ask) pc w (s, log) =
           (r, (s', log'))"
  shows "processLogsSource type newName source rule ask pc w s = (r, s')"
    and "answered_since log log' (failure r)"
proof -
  let ?p1 = "''Enter matcher condition for entity extraction (extractNode: false) for \"'' @
              TopologyType.displayName type @ ''\" (Logs)''"
  let ?v1 = "convertRequiredDimensionsToMatcher (requiredDimensions rule)"
  obtain r1 s1 log1 where a1: "awaitInput (recording ask) ?p1 ?v1 (s, log) = (r1, (s1, log1))"
    by (cases "awaitInput (recording ask) ?p1 ?v1 (s, log)") auto
  note f1 = awaitInput_recording(1,4) [OF a1]
  show "processLogsSource type newName source rule ask pc w s = (r, s')"
    and "answered_since log log' (failure r)"
  proof (atomize (full), cases r1)
    case (Inl e)
    with assms a1 f1 show "processLogsSource type newName source rule ask pc w s = (r, s') \<and>
        answered_since log log' (failure r)"
      by (auto simp: processLogsSource_def Let_def)
  next
    case (Inr entityMatcher)
    show "processLogsSource type newName source rule ask pc w s = (r, s') \<and>
        answered_since log log' (failure r)"
    proof (cases "newName \<in> w")
      case True
      with Inr assms a1 f1 show ?thesis
        by (auto simp: processLogsSource_def Let_def)
    next
      case False
      let ?p2 = "''Enter matcher condition for node extraction (extractNode: true) for \"'' @
                 TopologyType.displayName type @ ''\" (Logs)''"
      obtain r2 s2 log2 where
        a2: "awaitInput (recording ask) ?p2 ?v1 (s1, log1) = (r2, (s2, log2))"
        by (cases "awaitInput (recording ask) ?p2 ?v1 (s1, log1)") auto
      note f2 = awaitInput_recording(1,4) [OF a2]
      from Inr f1(2) f2(2) have tr: "answered_since log log2 (failure r2)"
        by (auto intro: answered_since_trans)
      from False Inr assms a1 a2 f1(1) f2(1) tr show ?thesis
        by (cases r2) (auto simp: processLogsSource_def Let_def)
    qed
  qed
qed

lemma ruleSources_loop_recording:
  assumes "ruleSources_loop type newName rule srcs ms (recording ask) st (s, log) =
           (r, (s', log'))"
  shows "ruleSources_loop type newName rule srcs ms ask st s = (r, s') \<and>
         answered_since log log' (failure r)"
  using assms
proof (induction srcs arbitrary: st s log)
  case Nil
  then show ?case by (auto simp: answered_since_refl)
next
  case (Cons source rest)
  show ?case
  proof (cases "Source.sourceType source = ''Metrics''")
    case True
    obtain r1 s1 log1 where a: "processMetricsSource type newName source rule ms (recording ask)
        (metricsCounter st) (entityTypesWithNodeExtraction st) (s, log) = (r1, (s1, log1))"
      by (cases "processMetricsSource type newName source rule ms (recording ask)
        (metricsCounter st) (entityTypesWithNodeExtraction st) (s, log)") auto
    note f = processMetricsSource_recording [OF a]
    show ?thesis
    proof (cases r1)
      case (Inl e)
      with True a f Cons.prems show ?thesis by auto
    next
      case (Inr pw)
      obtain ps w' where pw: "pw = (ps, w')" by (cases pw)
      from True a Inr pw Cons.prems have
        "ruleSources_loop type newName rule rest ms (recording ask)
           (st\<lparr>metricsProcessors := metricsProcessors st @ ps,
               metricsCounter := metricsCounter st + length ps,
               entityTypesWithNodeExtraction := w'\<rparr>) (s1, log1) = (r, (s', log'))"
        by simp
      from Cons.IH [OF this] True f Inr pw show ?thesis
        by (auto intro: answered_since_trans)
    qed
  next
    case notMetrics: False
    show ?thesis
    proof (cases "Source.sourceType source = ''Logs''")
      case True
      obtain r1 s1 log1 where a: "processLogsSource type newName source rule (recording ask)
          (logsCounter st) (entityTypesWithNodeExtraction st) (s, log) = (r1, (s1, log1))"
        by (cases "processLogsSource type newName source rule (recording ask)
          (logsCounter st) (entityTypesWithNodeExtraction st) (s, log)") auto
      note f = processLogsSource_recording [OF a]
      show ?thesis
      proof (cases r1)
        case (Inl e)
        with True notMetrics a f Cons.prems show ?thesis by auto
      next
        case (Inr pw)
        obtain ps w' where pw: "pw = (ps, w')" by (cases pw)
        from True notMetrics a Inr pw Cons.prems have
          "ruleSources_loop type newName rule rest ms (recording ask)
             (st\<lparr>logsProcessors := logsProcessors st @ ps,
                 logsCounter := logsCounter st + length ps,
                 entityTypesWithNodeExtraction := w'\<rparr>) (s1, log1) = (r, (s', log'))"
          by simp
        from Cons.IH [OF this] True notMetrics f Inr pw show ?thesis
          by (auto intro: answered_since_trans)
      qed
    next
      case False
      with notMetrics Cons.prems have
        "ruleSources_loop type newName rule rest ms (recording ask) st (s, log) = (r, (s', log'))"
        by simp
      from Cons.IH [OF this] False notMetrics show ?thesis by simp
    qed
  qed
qed

lemma typeRules_loop_recording:
  assumes "typeRules_loop type newName rs ms (recording ask) st (s, log) = (r, (s', log'))"
  shows "typeRules_loop type newName rs ms ask st s = (r, s') \<and>
         answered_since log log' (failure r)"
  using assms
proof (induction rs arbitrary: st s log)
  case Nil
  then show ?case by (auto simp: answered_since_refl)
next
  case (Cons rule rest)
  obtain r1 s1 log1 where a: "ruleSources_loop type newName rule (Rule.sources rule) ms
      (recording ask) st (s, log) = (r1, (s1, log1))"
    by (cases "ruleSources_loop type newName rule (Rule.sources rule) ms
      (recording ask) st (s, log)") auto
  note f = ruleSources_loop_recording [OF a]
  show ?case
  proof (cases r1)
    case (Inl e)
    with a f Cons.prems show ?thesis by auto
  next
    case (Inr st1)
    with a Cons.prems have
      "typeRules_loop type newName rest ms (recording ask) st1 (s1, log1) = (r, (s', log'))"
      by simp
    from Cons.IH [OF this] f Inr show ?thesis
      by (auto intro: answered_since_trans)
  qed
qed

lemma topologyTypes_loop_recording:
  assumes "topologyTypes_loop ts ms (recording ask) st tm (s, log) = (r, tm', (s', log'))"
  shows "topologyTypes_loop ts ms ask st tm s = (r, tm', s') \<and>
         answered_since log log' (failure r)"
  using assms
proof (induction ts arbitrary: st tm s log)
  case Nil
  then show ?case by (auto simp: answered_since_refl)
next
  case (Cons type rest)
  let ?p = "''Enter new name for type \"'' @ TopologyType.name type @ ''\"''"
  let ?v = "suggestNewTypeName (TopologyType.name type)"
  obtain r1 s1 log1 where a1: "awaitInput (recording ask) ?p ?v (s, log) = (r1, (s1, log1))"
    by (cases "awaitInput (recording ask) ?p ?v (s, log)") auto
  note f1 = awaitInput_recording(1,4) [OF a1]
  show ?case
  proof (cases r1)
    case (Inl e)
    with a1 f1 Cons.prems show ?thesis by auto
  next
    case (Inr newName)
    let ?tm1 = "case tm of None \<Rightarrow> None | Some m \<Rightarrow> Some (m(TopologyType.name type \<mapsto> newName))"
    obtain r2 s2 log2 where a2: "typeRules_loop type newName (rules type) ms (recording ask) st
        (s1, log1) = (r2, (s2, log2))"
      by (cases "typeRules_loop type newName (rules type) ms (recording ask) st (s1, log1)") auto
    note f2 = typeRules_loop_recording [OF a2]
    from Inr f1(2) f2 have tr: "answered_since log log2 (failure r2)"
      by (auto intro: answered_since_trans)
    show ?thesis
    proof (cases r2)
      case inl2: (Inl e)
      with Inr a1 a2 f1 f2 tr Cons.prems show ?thesis by (auto simp: Let_def)
    next
      case inr2: (Inr st1)
      with Inr a1 a2 Cons.prems have
        "topologyTypes_loop rest ms (recording ask) st1 ?tm1 (s2, log2) = (r, tm', (s', log'))"
        by (simp add: Let_def)
      from Cons.IH [OF this] Inr inr2 f1(1) f2 tr show ?thesis
        by (auto simp: Let_def intro: answered_since_trans)
    qed
  qed
qed

lemma createProcessorsFromTopology_recording:
  assumes "createProcessorsFromTopology ts ms (recording ask) tm (s, log) = (r, tm', (s', log'))"
  shows "createProcessorsFromTopology ts ms ask tm s = (r, tm', s') \<and>
         answered_since log log' (failure r)"
proof -
  let ?init = "\<lparr>metricsProcessors = [], logsProcessors = [], metricsCounter = 0,
                 logsCounter = 0, entityTypesWithNodeExtraction = {}\<rparr>"
  obtain r1 m1 s1 log1 where a: "topologyTypes_loop ts ms (recording ask) ?init tm (s, log) =
      (r1, m1, (s1, log1))"
    by (cases "topologyTypes_loop ts ms (recording ask) ?init tm (s, log)") auto
  note f = topologyTypes_loop_recording [OF a]
  from assms a f show ?thesis
    by (cases r1) (auto simp: createProcessorsFromTopology_def)
qed


lemma lookupOrAskTypeName_recording:
  assumes "lookupOrAskTypeName role typeName tm (recording ask) (s, log) = (r, tm', (s', log'))"
  shows "lookupOrAskTypeName role typeName tm ask s = (r, tm', s') \<and>
         answered_since log log' (failure r)"
proof -
  let ?p = "''Enter new name for '' @ role @ '' type \"'' @ typeName @ ''\"''"
  let ?v = "suggestNewTypeName typeName"
  obtain r1 s1 log1 where a1: "awaitInput (recording ask) ?p ?v (s, log) = (r1, (s1, log1))"
    by (cases "awaitInput (recording ask) ?p ?v (s, log)") auto
  note f1 = awaitInput_recording(1,4) [OF a1]
  from assms a1 f1 show ?thesis
    by (cases r1; cases "tm typeName")
       (auto simp: lookupOrAskTypeName_def Let_def answered_since_refl split: if_splits)
qed

lemma templateText_nonempty: "templateText (Inherited k) \<noteq> []"
  by (simp add: templateText_def)

lemma awaitInputValue_recording:
  assumes "awaitInputValue (recording ask) (recording_inherited askI) p v (s, log) =
           (r, (s', log'))"
  shows "awaitInputValue ask askI p v s = (r, s') \<and> answered_since log log' (failure r)"
proof (cases v)
  case (Text x)
  obtain r1 s1 log1 where a1: "awaitInput (recording ask) p x (s, log) = (r1, (s1, log1))"
    by (cases "awaitInput (recording ask) p x (s, log)") auto
  note f1 = awaitInput_recording(1,4) [OF a1]
  from Text assms a1 f1 show ?thesis
    by (cases r1) (auto simp: awaitInputValue_def)
next
  case (Inherited k)
  obtain a s1 where ask: "askI s p k = (a, s1)" by (cases "askI s p k")
  with Inherited assms have
    run: "awaitInputValue ask askI p v s = (r, s')" and
    log: "log' = log @ [\<lparr>prompt = p, suggestedValue = templateText (Inherited k),
                          answer = map_option templateText a\<rparr>]" and
    ans: "r \<noteq> Inl UserCancelled \<longrightarrow> truthy (map_option templateText a)"
    by (auto simp: awaitInputValue_def recording_inherited_def truthy_def templateText_def
             split: option.splits JsValue.splits if_splits)
  from log ans have "answered_since log log' (failure r)"
    unfolding answered_since_def by (cases r) (auto simp: failure_def)
  with run show ?thesis by simp
qed

lemma processMetricsRelationship_recording:
  assumes "processMetricsRelationship rel f t e source (recording ask) c (s, log) =
           (r, (s', log'))"
  shows "processMetricsRelationship rel f t e source ask c s = (r, s') \<and>
         answered_since log log' (failure r)"
proof -
  let ?p = "''Enter matcher condition for relationship \"'' @ fromType rel @ ''\" '' @
              arrow @ '' \"'' @ toType rel @ ''\" ('' @ templateText e @ '')''"
  let ?v = "convertConditionToMatcher (condition source)"
  obtain r1 s1 log1 where a1: "awaitInput (recording ask) ?p ?v (s, log) = (r1, (s1, log1))"
    by (cases "awaitInput (recording ask) ?p ?v (s, log)") auto
  note f1 = awaitInput_recording(1,4) [OF a1]
  from assms a1 f1 show ?thesis
    by (cases r1) (auto simp: processMetricsRelationship_def Let_def)
qed

lemma processLogsRelationship_recording:
  assumes "processLogsRelationship rel f t e source (recording ask) c (s, log) =
           (r, (s', log'))"
  shows "processLogsRelationship rel f t e source ask c s = (r, s') \<and>
         answered_since log log' (failure r)"
proof -
  let ?p = "''Enter matcher condition for relationship \"'' @ fromType rel @
                 ''\" '' @ arrow @ '' \"'' @ toType rel @ ''\" ('' @ templateText e @
                 '') (Logs)''"
  let ?v = "if truthy (condition source) then convertConditionToMatcher (condition source)
             else ''isNotNull(content)''"
  obtain r1 s1 log1 where a1: "awaitInput (recording ask) ?p ?v (s, log) = (r1, (s1, log1))"
    by (cases "awaitInput (recording ask) ?p ?v (s, log)") auto
  note f1 = awaitInput_recording(1,4) [OF a1]
  from assms a1 f1 show ?thesis
    by (cases r1) (auto simp: processLogsRelationship_def Let_def)
qed

lemma relationshipSources_loop_recording:
  assumes "relationshipSources_loop rel f t e srcs (recording ask) st (s, log) =
           (r, (s', log'))"
  shows "relationshipSources_loop rel f t e srcs ask st s = (r, s') \<and>
         answered_since log log' (failure r)"
  using assms
proof (induction srcs arbitrary: st s log)
  case Nil
  then show ?case by (auto simp: answered_since_refl)
next
  case (Cons source rest)
  show ?case
  proof (cases "Source.sourceType source = ''Metrics''")
    case True
    obtain r1 s1 log1 where a: "processMetricsRelationship rel f t e source (recording ask)
        (metricsCounter st) (s, log) = (r1, (s1, log1))"
      by (cases "processMetricsRelationship rel f t e source (recording ask)
        (metricsCounter st) (s, log)") auto
    note g = processMetricsRelationship_recording [OF a]
    show ?thesis
    proof (cases r1)
      case (Inl err)
      with True a g Cons.prems show ?thesis by auto
    next
      case (Inr processor)
      with True a Cons.prems have
        "relationshipSources_loop rel f t e rest (recording ask)
           (st\<lparr>metricsProcessors := metricsProcessors st @ [processor],
               metricsCounter := metricsCounter st + 1\<rparr>) (s1, log1) = (r, (s', log'))"
        by simp
      from Cons.IH [OF this] True g Inr show ?thesis
        by (auto intro: answered_since_trans)
    qed
  next
    case notMetrics: False
    show ?thesis
    proof (cases "Source.sourceType source = ''Logs''")
      case True
      obtain r1 s1 log1 where a: "processLogsRelationship rel f t e source (recording ask)
          (logsCounter st) (s, log) = (r1, (s1, log1))"
        by (cases "processLogsRelationship rel f t e source (recording ask)
          (logsCounter st) (s, log)") auto
      note g = processLogsRelationship_recording [OF a]
      show ?thesis
      proof (cases r1)
        case (Inl err)
        with True notMetrics a g Cons.prems show ?thesis by auto
      next
        case (Inr processor)
        with True notMetrics a Cons.prems have
          "relationshipSources_loop rel f t e rest (recording ask)
             (st\<lparr>logsProcessors := logsProcessors st @ [processor],
                 logsCounter := logsCounter st + 1\<rparr>) (s1, log1) = (r, (s', log'))"
          by simp
        from Cons.IH [OF this] True notMetrics g Inr show ?thesis
          by (auto intro: answered_since_trans)
      qed
    next
      case False
      with notMetrics Cons.prems have
        "relationshipSources_loop rel f t e rest (recording ask) st (s, log) = (r, (s', log'))"
        by simp
      from Cons.IH [OF this] False notMetrics show ?thesis by simp
    qed
  qed
qed


lemma answered_since_weaken: "answered_since log log' None \<Longrightarrow> answered_since log log' e"
  by (auto simp: answered_since_def)


lemma relationships_loop_recording:
  assumes "relationships_loop rels tm (recording ask) (recording_inherited askI) st (s, log) =
           (r, tm', (s', log'))"
  shows "relationships_loop rels tm ask askI st s = (r, tm', s') \<and>
         answered_since log log' (failure r)"
  using assms
proof (induction rels arbitrary: tm st s log)
  case Nil
  then show ?case by (auto simp: answered_since_refl)
next
  case (Cons rel rest)
  obtain r1 m1 s1 log1 where a1: "lookupOrAskTypeName ''source'' (fromType rel) tm
      (recording ask) (s, log) = (r1, m1, (s1, log1))"
    by (cases "lookupOrAskTypeName ''source'' (fromType rel) tm (recording ask) (s, log)") auto
  note f1 = lookupOrAskTypeName_recording [OF a1]
  show ?case
  proof (cases r1)
    case (Inl e)
    with a1 f1 Cons.prems show ?thesis by auto
  next
    case inr1: (Inr fromTypeName)
    obtain r2 m2 s2 log2 where a2: "lookupOrAskTypeName ''target'' (toType rel) m1
        (recording ask) (s1, log1) = (r2, m2, (s2, log2))"
      by (cases "lookupOrAskTypeName ''target'' (toType rel) m1 (recording ask) (s1, log1)") auto
    note f2 = lookupOrAskTypeName_recording [OF a2]
    from inr1 f1 f2 have t2: "answered_since log log2 (failure r2)"
      by (auto intro: answered_since_trans)
    show ?thesis
    proof (cases r2)
      case (Inl e)
      with inr1 a1 a2 f1 f2 t2 Cons.prems show ?thesis by auto
    next
      case inr2: (Inr toTypeName)
      with t2 have t2': "answered_since log log2 None" by simp
      show ?thesis
      proof (cases "RELATIONSHIP_TYPE_MAPPING_index (typeOfRelation rel) = None \<or>
                    falsy (RELATIONSHIP_TYPE_MAPPING_index (typeOfRelation rel))")
        case True
        with inr1 inr2 a1 a2 f1 f2 Cons.prems answered_since_weaken [OF t2'] show ?thesis
          by (auto split: option.splits if_splits)
      next
        case False
        then obtain suggestedEdgeType where
          some: "RELATIONSHIP_TYPE_MAPPING_index (typeOfRelation rel) = Some suggestedEdgeType"
            "\<not> falsy (Some suggestedEdgeType)"
          by auto
        let ?p = "''Enter edge type for \"'' @ fromType rel @ ''\" '' @ arrow @
                  '' \"'' @ toType rel @ ''\" (was '' @ typeOfRelation rel @ '')''"
        obtain r3 s3 log3 where a3: "awaitInputValue (recording ask) (recording_inherited askI)
            ?p suggestedEdgeType (s2, log2) = (r3, (s3, log3))"
          by (cases "awaitInputValue (recording ask) (recording_inherited askI)
            ?p suggestedEdgeType (s2, log2)") auto
        note f3 = awaitInputValue_recording [OF a3]
        from t2' f3 have t3: "answered_since log log3 (failure r3)"
          by (auto intro: answered_since_trans)
        show ?thesis
        proof (cases r3)
          case (Inl e)
          with some inr1 inr2 a1 a2 a3 f1 f2 f3 t3 Cons.prems show ?thesis by auto
        next
          case inr3: (Inr edgeTypeInput)
          with t3 have t3': "answered_since log log3 None" by simp
          obtain r4 s4 log4 where a4: "relationshipSources_loop rel fromTypeName toTypeName
              edgeTypeInput (Relationship.sources rel) (recording ask) st (s3, log3) =
              (r4, (s4, log4))"
            by (cases "relationshipSources_loop rel fromTypeName toTypeName
              edgeTypeInput (Relationship.sources rel) (recording ask) st (s3, log3)") auto
          note f4 = relationshipSources_loop_recording [OF a4]
          from t3' f4 have t4: "answered_since log log4 (failure r4)"
            by (auto intro: answered_since_trans)
          show ?thesis
          proof (cases r4)
            case (Inl e)
            with some inr1 inr2 inr3 a1 a2 a3 a4 f1 f2 f3 f4 t4 Cons.prems show ?thesis by auto
          next
            case inr4: (Inr st1)
            with t4 have t4': "answered_since log log4 None" by simp
            from some inr1 inr2 inr3 inr4 a1 a2 a3 a4 Cons.prems have
              "relationships_loop rest m2 (recording ask) (recording_inherited askI) st1
                 (s4, log4) = (r, tm', (s', log'))"
              by simp
            from Cons.IH [OF this] have
              rec: "relationships_loop rest m2 ask askI st1 s4 = (r, tm', s')" and
              t5: "answered_since log4 log' (failure r)"
              by simp_all
            from t4' t5 have "answered_since log log' (failure r)"
              by (rule answered_since_trans)
            with some inr1 inr2 inr3 inr4 f1 f2 f3 f4 rec show ?thesis by simp
          qed
        qed
      qed
    qed
  qed
qed

lemma createProcessorsFromRelationships_recording:
  assumes "createProcessorsFromRelationships rels tm (recording ask) (recording_inherited askI)
             (s, log) = (r, tm', (s', log'))"
  shows "createProcessorsFromRelationships rels tm ask askI s = (r, tm', s') \<and>
         answered_since log log' (failure r)"
proof -
  let ?init = "\<lparr>metricsProcessors = [], logsProcessors = [], metricsCounter = 0,
                 logsCounter = 0\<rparr>"
  obtain r1 m1 s1 log1 where a: "relationships_loop rels tm (recording ask)
      (recording_inherited askI) ?init (s, log) = (r1, m1, (s1, log1))"
    by (cases "relationships_loop rels tm (recording ask) (recording_inherited askI) ?init
                 (s, log)") auto
  note f = relationships_loop_recording [OF a]
  from assms a f show ?thesis
    by (cases r1) (auto simp: createProcessorsFromRelationships_def)
qed

lemma convertTopologyToOpenPipeline_recording:
  assumes "convertTopologyToOpenPipeline extension (recording ask) (recording_inherited askI)
             (s, log) = (r, (s', log'))"
  shows "convertTopologyToOpenPipeline extension ask askI s = (r, s') \<and>
         answered_since log log' (failure r)"
proof (cases "topology extension")
  case None
  with assms show ?thesis
    by (auto simp: convertTopologyToOpenPipeline_def answered_since_refl)
next
  case (Some topo)
  let ?nodes = "\<lambda>cb st. case types topo of
                   None \<Rightarrow> (Inr \<lparr>metricsProcessors = [], logsProcessors = []\<rparr>, Some Map.empty, st)
                 | Some ts \<Rightarrow> createProcessorsFromTopology ts (metrics extension) cb
                       (Some Map.empty) st"
  obtain r1 m1 s1 log1 where a1: "?nodes (recording ask) (s, log) = (r1, m1, (s1, log1))"
    by (cases "?nodes (recording ask) (s, log)") auto
  have f1: "?nodes ask s = (r1, m1, s1) \<and> answered_since log log1 (failure r1)"
  proof (cases "types topo")
    case None
    with a1 show ?thesis by (auto simp: answered_since_refl)
  next
    case (Some ts)
    with a1 createProcessorsFromTopology_recording [of ts "metrics extension" ask
                "Some Map.empty" s log r1 m1 s1 log1]
    show ?thesis by simp
  qed
  show ?thesis
  proof (cases r1)
    case (Inl e)
    with Some a1 f1 assms show ?thesis
      by (auto simp: convertTopologyToOpenPipeline_def)
  next
    case inr1: (Inr nodes)
    let ?edges = "\<lambda>cb cbI st. case relationships topo of
                    None \<Rightarrow> (Inr \<lparr>metricsProcessors = [], logsProcessors = []\<rparr>, Map.empty, st)
                  | Some rs \<Rightarrow> createProcessorsFromRelationships rs
                        (case m1 of Some tm \<Rightarrow> tm | None \<Rightarrow> Map.empty) cb cbI st"
    obtain r2 m2 s2 log2 where
      a2: "?edges (recording ask) (recording_inherited askI) (s1, log1) = (r2, m2, (s2, log2))"
      by (cases "?edges (recording ask) (recording_inherited askI) (s1, log1)") auto
    have f2: "?edges ask askI s1 = (r2, m2, s2) \<and> answered_since log1 log2 (failure r2)"
    proof (cases "relationships topo")
      case None
      with a2 show ?thesis by (auto simp: answered_since_refl)
    next
      case (Some rs)
      with a2 createProcessorsFromRelationships_recording [of rs
                  "case m1 of Some tm \<Rightarrow> tm | None \<Rightarrow> Map.empty" ask askI s1 log1 r2 m2 s2 log2]
      show ?thesis by simp
    qed
    from inr1 f1 f2 have t2: "answered_since log log2 (failure r2)"
      by (auto intro: answered_since_trans)
    from Some inr1 a1 a2 f1 f2 t2 assms show ?thesis
      by (cases r2) (auto simp: convertTopologyToOpenPipeline_def Let_def)
  qed
qed

subsection \<open>Cancellation\<close>

text \<open>
  C5. Take any run of the whole compilation, with any callback, and the list of the
  Resolution Port calls it made. If one of the calls returned no answer (\<open>null\<close>; the
  empty string counts as none too), the value of the run is the cancellation error:
  an error alone, with no processors and no documents. The calls include the edge-type
  prompt of a relationship whose kind names an inherited member.
\<close>

theorem cancellation_aborts_the_run:
  assumes "convertTopologyToOpenPipeline extension (recording ask) (recording_inherited askI)
             (s, []) = (r, (s', log))"
  shows "convertTopologyToOpenPipeline extension ask askI s = (r, s') \<and>
         ((\<exists>c\<in>set log. answer c = None \<or> answer c = Some []) \<longrightarrow> r = Inl UserCancelled)"
proof -
  note f = convertTopologyToOpenPipeline_recording [OF assms]
  have "r = Inl UserCancelled" if "\<exists>c\<in>set log. answer c = None \<or> answer c = Some []"
  proof (rule ccontr)
    assume "r \<noteq> Inl UserCancelled"
    then have "failure r \<noteq> Some UserCancelled" by (cases r) auto
    with f have "\<forall>c\<in>set log. truthy (answer c)" by (auto simp: answered_since_def)
    with that show False by (auto simp: truthy_def)
  qed
  with f show ?thesis by blast
qed

theorem cancellation_aborts_the_run_witness:
  "(\<exists>s' log.
      convertTopologyToOpenPipeline
        \<lparr>ExtensionStub.name = ''custom:com.dynatrace.cloudhub'',
         topology = Some \<lparr>types = Some [\<lparr>TopologyType.name = ''cloudhub:org'',
                                          TopologyType.displayName = ''Org'',
                                          rules = [\<lparr>idPattern = None, instanceNamePattern = None,
                                                    requiredDimensions = None, attributes = None,
                                                    Rule.sources =
                                                      [\<lparr>Source.sourceType = ''Metrics'',
                                                        condition = None\<rparr>]\<rparr>]\<rparr>],
                          relationships = None\<rparr>,
         metrics = None\<rparr>
        (recording scripted) (recording_inherited scripted_inherited)
        ([Some ''ORG'', Some ''isNotNull(metric.key)'', None], []) =
        (Inl UserCancelled, (s', log)) \<and>
      map answer log = [Some ''ORG'', Some ''isNotNull(metric.key)'', None]) \<and>
   (\<exists>s' log.
      convertTopologyToOpenPipeline
        \<lparr>ExtensionStub.name = ''custom:com.dynatrace.cloudhub'',
         topology = Some \<lparr>types = None,
                          relationships = Some [\<lparr>fromType = ''A'', toType = ''B'',
                                                  typeOfRelation = ''constructor'',
                                                  Relationship.sources = []\<rparr>]\<rparr>,
         metrics = None\<rparr>
        (recording scripted) (recording_inherited scripted_inherited)
        ([Some ''HOST'', Some ''DISK'', None], []) =
        (Inl UserCancelled, (s', log)) \<and>
      map answer log = [Some ''HOST'', Some ''DISK'', None])"
proof
  let ?ext = "\<lparr>ExtensionStub.name = ''custom:com.dynatrace.cloudhub'',
        topology = Some \<lparr>types = Some [\<lparr>TopologyType.name = ''cloudhub:org'',
                                         TopologyType.displayName = ''Org'',
                                         rules = [\<lparr>idPattern = None, instanceNamePattern = None,
                                                   requiredDimensions = None, attributes = None,
                                                   Rule.sources =
                                                     [\<lparr>Source.sourceType = ''Metrics'',
                                                       condition = None\<rparr>]\<rparr>]\<rparr>],
                         relationships = None\<rparr>,
        metrics = None\<rparr>"
  let ?run = "convertTopologyToOpenPipeline ?ext (recording scripted)
                (recording_inherited scripted_inherited)
                ([Some ''ORG'', Some ''isNotNull(metric.key)'', None], [])"
  have "\<exists>r s' log. ?run = (r, (s', log)) \<and>
          map answer log = [Some ''ORG'', Some ''isNotNull(metric.key)'', None]"
    by (simp add: convertTopologyToOpenPipeline_def createProcessorsFromTopology_def
          awaitInput_def recording_def scripted_def processMetricsSource_def Let_def)
  then obtain r s' log where run: "?run = (r, (s', log))"
      and log: "map answer log = [Some ''ORG'', Some ''isNotNull(metric.key)'', None]"
    by (elim exE conjE)
  from log have "None \<in> set (map answer log)" by simp
  then obtain c where "c \<in> set log" "answer c = None" by (auto simp: image_iff)
  then have "\<exists>c\<in>set log. answer c = None \<or> answer c = Some []" by (intro bexI disjI1)
  with cancellation_aborts_the_run [OF run] have "r = Inl UserCancelled" by simp
  with run log show "\<exists>s' log. ?run = (Inl UserCancelled, (s', log)) \<and>
      map answer log = [Some ''ORG'', Some ''isNotNull(metric.key)'', None]"
    by simp
next
  let ?ext = "\<lparr>ExtensionStub.name = ''custom:com.dynatrace.cloudhub'',
         topology = Some \<lparr>types = None,
                          relationships = Some [\<lparr>fromType = ''A'', toType = ''B'',
                                                  typeOfRelation = ''constructor'',
                                                  Relationship.sources = []\<rparr>]\<rparr>,
         metrics = None\<rparr>"
  let ?run = "convertTopologyToOpenPipeline ?ext (recording scripted)
                (recording_inherited scripted_inherited)
                ([Some ''HOST'', Some ''DISK'', None], [])"
  have "\<exists>r s' log. ?run = (r, (s', log)) \<and>
          map answer log = [Some ''HOST'', Some ''DISK'', None]"
    by (simp add: convertTopologyToOpenPipeline_def createProcessorsFromRelationships_def
          lookupOrAskTypeName_def awaitInput_def awaitInputValue_def recording_def
          recording_inherited_def scripted_def scripted_inherited_def
          RELATIONSHIP_TYPE_MAPPING_index_def RELATIONSHIP_TYPE_MAPPING_def
          Object_prototype_properties_def falsy_def Let_def)
  then obtain r s' log where run: "?run = (r, (s', log))"
      and log: "map answer log = [Some ''HOST'', Some ''DISK'', None]"
    by (elim exE conjE)
  from log have "None \<in> set (map answer log)" by simp
  then obtain c where "c \<in> set log" "answer c = None" by (auto simp: image_iff)
  then have "\<exists>c\<in>set log. answer c = None \<or> answer c = Some []" by (intro bexI disjI1)
  with cancellation_aborts_the_run [OF run] have "r = Inl UserCancelled" by simp
  with run log show "\<exists>s' log. ?run = (Inl UserCancelled, (s', log)) \<and>
      map answer log = [Some ''HOST'', Some ''DISK'', None]"
    by simp
qed

subsection \<open>The node matcher suggested for \<open>$exists()\<close>\<close>

lemma awaitInput_recording_call:
  assumes "awaitInput (recording ask) p v (s, log) = (r, (s', log'))"
  shows "\<exists>a. log' = log @ [\<lparr>prompt = p, suggestedValue = v, answer = a\<rparr>] \<and>
             ((r = Inl UserCancelled \<and> \<not> truthy a) \<or> (\<exists>x. r = Inr x \<and> truthy a))"
proof -
  obtain a s1 where ask: "ask s p v = (a, s1)" by (cases "ask s p v")
  with assms show ?thesis
    by (auto simp: awaitInput_def recording_def truthy_def split: option.splits if_splits)
qed

lemma findMatchingMetric_exists:
  assumes "sublist ''$exists()'' c" and "no_call ''$prefix('' c" and "no_call ''$eq('' c"
  shows "findMatchingMetric (Some c) (Some (m # rest)) = Some (MetricMetadata.key m)"
proof -
  from assms(1) have "c \<noteq> []" by (auto simp: sublist_def)
  moreover from assms(2,3) have "match_call ''$prefix('' c = None" "match_call ''$eq('' c = None"
    by (simp_all only: match_call_None_iff)
  ultimately show ?thesis using assms(1) by (simp add: findMatchingMetric_def)
qed

text \<open>
  C10, as amended. Take a Metrics source whose condition contains \<open>$exists()\<close> and no
  \<open>$prefix(X)\<close> or \<open>$eq(X)\<close> call, a metrics catalog that is not empty and whose first
  metric has a non-empty key \<open>K\<close>, and a resolved type that has no node-extraction
  processor yet. Then, once the entity matcher has been answered, the suggestion
  presented to the Resolution Port with the node-extraction prompt is
  \<open>matchesValue(metric.key, "K")\<close>; when the entity matcher is not answered the run is
  cancelled and no second call is made.
\<close>

theorem exists_condition_suggests_first_metric:
  assumes "condition source = Some c" and "sublist ''$exists()'' c"
      and "no_call ''$prefix('' c" and "no_call ''$eq('' c"
      and "ms = Some (m # rest)" and "MetricMetadata.key m \<noteq> []" and "newName \<notin> w"
      and "processMetricsSource type newName source rule ms (recording ask) pc w (s, log) =
           (r, (s', log'))"
  shows "(\<exists>c1. log' = log @ [c1] \<and> \<not> truthy (answer c1) \<and> r = Inl UserCancelled) \<or>
         (\<exists>c1 c2. log' = log @ [c1, c2] \<and> truthy (answer c1) \<and>
            prompt c2 = ''Enter matcher condition for node extraction (extractNode: true) for \"'' @
                        TopologyType.displayName type @ ''\"'' \<and>
            suggestedValue c2 = ''matchesValue(metric.key, \"'' @ MetricMetadata.key m @ ''\")'')"
proof -
  let ?p1 = "''Enter matcher condition for entity extraction (extractNode: false) for \"'' @
              TopologyType.displayName type @ ''\"''"
  let ?v1 = "convertConditionToMatcher (condition source)"
  let ?p2 = "''Enter matcher condition for node extraction (extractNode: true) for \"'' @
              TopologyType.displayName type @ ''\"''"
  let ?v2 = "''matchesValue(metric.key, \"'' @ MetricMetadata.key m @ ''\")''"
  have fm: "findMatchingMetric (condition source) ms = Some (MetricMetadata.key m)"
    using assms(1-5) by (simp add: findMatchingMetric_exists)
  obtain r1 s1 log1 where a1: "awaitInput (recording ask) ?p1 ?v1 (s, log) = (r1, (s1, log1))"
    by (cases "awaitInput (recording ask) ?p1 ?v1 (s, log)") auto
  from awaitInput_recording_call [OF a1] obtain c1 where
    c1: "log1 = log @ [c1]"
        "(r1 = Inl UserCancelled \<and> \<not> truthy (answer c1)) \<or> (\<exists>x. r1 = Inr x \<and> truthy (answer c1))"
    by auto
  from c1(2) show ?thesis
  proof (elim disjE conjE exE)
    assume "r1 = Inl UserCancelled" "\<not> truthy (answer c1)"
    with a1 c1(1) assms(8) show ?thesis
      by (auto simp: processMetricsSource_def Let_def)
  next
    fix x assume x: "r1 = Inr x" "truthy (answer c1)"
    obtain r2 s2 log2 where a2: "awaitInput (recording ask) ?p2 ?v2 (s1, log1) = (r2, (s2, log2))"
      by (cases "awaitInput (recording ask) ?p2 ?v2 (s1, log1)") auto
    from awaitInput_recording_call [OF a2] obtain c2 where
      c2: "log2 = log1 @ [c2]" "prompt c2 = ?p2" "suggestedValue c2 = ?v2"
      by auto
    from a1 a2 x fm assms(6,7,8) have "log' = log2"
      by (auto simp: processMetricsSource_def Let_def split: sum.splits)
    with c1(1) c2 x(2) show ?thesis by simp
  qed
qed

theorem exists_condition_suggests_first_metric_witness:
  "\<exists>r s' c1 c2.
     processMetricsSource
       \<lparr>TopologyType.name = ''cloudhub:org'', TopologyType.displayName = ''Org'', rules = []\<rparr>
       ''CLOUDHUB_ORG'' \<lparr>Source.sourceType = ''Metrics'', condition = Some ''$exists()''\<rparr>
       \<lparr>idPattern = None, instanceNamePattern = None, requiredDimensions = None,
        attributes = None, Rule.sources = []\<rparr>
       (Some [\<lparr>MetricMetadata.key = ''cloudhub.org.cpu''\<rparr>, \<lparr>MetricMetadata.key = ''other''\<rparr>])
       (recording autoInputCallback) 0 {} ((), []) = (r, (s', [c1, c2])) \<and>
     suggestedValue c2 = ''matchesValue(metric.key, \"cloudhub.org.cpu\")''"
proof -
  let ?type = "\<lparr>TopologyType.name = ''cloudhub:org'', TopologyType.displayName = ''Org'', rules = []\<rparr>"
  let ?src = "\<lparr>Source.sourceType = ''Metrics'', condition = Some ''$exists()''\<rparr>"
  let ?rule = "\<lparr>idPattern = None, instanceNamePattern = None, requiredDimensions = None,
        attributes = None, Rule.sources = []\<rparr>"
  let ?m = "\<lparr>MetricMetadata.key = ''cloudhub.org.cpu''\<rparr>"
  let ?ms = "Some [?m, \<lparr>MetricMetadata.key = ''other''\<rparr>]"
  obtain r s' log' where run: "processMetricsSource ?type ''CLOUDHUB_ORG'' ?src ?rule ?ms
      (recording autoInputCallback) 0 {} ((), []) = (r, (s', log'))"
    by (cases "processMetricsSource ?type ''CLOUDHUB_ORG'' ?src ?rule ?ms
      (recording autoInputCallback) 0 {} ((), [])") auto
  have h: "condition ?src = Some ''$exists()''" "sublist ''$exists()'' ''$exists()''"
      "no_call ''$prefix('' ''$exists()''" "no_call ''$eq('' ''$exists()''"
      "?ms = Some (?m # [\<lparr>MetricMetadata.key = ''other''\<rparr>])" "MetricMetadata.key ?m \<noteq> []"
      "''CLOUDHUB_ORG'' \<notin> {}"
    unfolding match_call_None_iff [symmetric]
    by (simp_all add: match_call_here_def)
  have answered: "r \<noteq> Inl UserCancelled"
    using run by (auto simp: processMetricsSource_def awaitInput_def recording_def
        autoInputCallback_def convertConditionToMatcher_def trim_Cons_nonempty
        match_call_here_def sublist_code findMatchingMetric_def Let_def)
  from exists_condition_suggests_first_metric [OF h run] answered
  obtain c1 c2 where "log' = [] @ [c1, c2]"
      "suggestedValue c2 = ''matchesValue(metric.key, \"'' @ MetricMetadata.key ?m @ ''\")''"
    by auto
  with run show ?thesis by auto
qed

text \<open>
  The claim as stated fails on a condition that contains \<open>$exists()\<close> after an \<open>$eq\<close>
  call: the \<open>$eq\<close> rule comes first, the catalog has no metric with that key, and the
  suggestion is the entity matcher.
\<close>

theorem exists_condition_after_eq_call:
  "sublist ''$exists()'' ''$eq(a)$exists()'' \<and>
   map suggestedValue
     (snd (snd (processMetricsSource
        \<lparr>TopologyType.name = ''cloudhub:org'', TopologyType.displayName = ''Org'', rules = []\<rparr>
        ''CLOUDHUB_ORG'' \<lparr>Source.sourceType = ''Metrics'', condition = Some ''$eq(a)$exists()''\<rparr>
        \<lparr>idPattern = None, instanceNamePattern = None, requiredDimensions = None,
         attributes = None, Rule.sources = []\<rparr>
        (Some [\<lparr>MetricMetadata.key = ''b''\<rparr>])
        (recording autoInputCallback) 0 {} ((), [])))) =
     [''metric.key == \"a\"'', ''metric.key == \"a\"'']"
  by (simp add: processMetricsSource_def awaitInput_def recording_def
        autoInputCallback_def convertConditionToMatcher_def trim_Cons_nonempty
        match_call_here_def sublist_code findMatchingMetric_def Let_def)

subsection \<open>Unknown relationship kinds\<close>

text \<open>
  The unknown kinds are those for which \<open>RELATIONSHIP_TYPE_MAPPING[k]\<close> is \<open>undefined\<close>.
  \<open>lookupOrAskTypeName_calls\<close> says what one resolution of a name does to the mapping
  and to the log.
\<close>

lemma unknown_kind_index:
  "unknown_kind k \<longleftrightarrow> RELATIONSHIP_TYPE_MAPPING_index k = None"
  by (simp add: unknown_kind_def RELATIONSHIP_TYPE_MAPPING_index_def RELATIONSHIP_TYPE_MAPPING_def)

lemma index_not_falsy:
  "RELATIONSHIP_TYPE_MAPPING_index k = Some v \<Longrightarrow> \<not> falsy (Some v)"
  by (auto simp: RELATIONSHIP_TYPE_MAPPING_index_def RELATIONSHIP_TYPE_MAPPING_def falsy_def
           split: if_splits)

lemma lookupOrAskTypeName_calls:
  assumes "lookupOrAskTypeName role n tm (recording ask) (s, log) = (r, tm', (s', log'))"
  shows "(truthy (tm n) \<and> (\<exists>v. tm n = Some v \<and> r = Inr v) \<and> tm' = tm \<and> s' = s \<and> log' = log) \<or>
         (\<not> truthy (tm n) \<and>
          (\<exists>a. log' = log @ [\<lparr>prompt = ''Enter new name for '' @ role @ '' type \"'' @ n @ ''\"'',
                                suggestedValue = suggestNewTypeName n, answer = a\<rparr>] \<and>
               a = fst (ask s (''Enter new name for '' @ role @ '' type \"'' @ n @ ''\"'')
                          (suggestNewTypeName n)) \<and>
               ((\<not> truthy a \<and> r = Inl UserCancelled \<and> tm' = tm) \<or>
                (\<exists>x. a = Some x \<and> x \<noteq> [] \<and> r = Inr x \<and> tm' = tm(n \<mapsto> x)))))"
proof -
  let ?p = "''Enter new name for '' @ role @ '' type \"'' @ n @ ''\"''"
  obtain a s1 where ask: "ask s ?p (suggestNewTypeName n) = (a, s1)"
    by (cases "ask s ?p (suggestNewTypeName n)")
  show ?thesis
  proof (cases "truthy (tm n)")
    case True
    then obtain v where "tm n = Some v" "v \<noteq> []"
      by (auto simp: truthy_def split: option.splits)
    with True assms show ?thesis by (simp add: lookupOrAskTypeName_def Let_def)
  next
    case False
    with assms have "awaitInput (recording ask) ?p (suggestNewTypeName n) (s, log) =
        (case r of Inl e \<Rightarrow> (Inl e, (s', log')) | Inr x \<Rightarrow> (Inr x, (s', log'))) \<and>
        (case r of Inl e \<Rightarrow> tm' = tm | Inr x \<Rightarrow> tm' = tm(n \<mapsto> x))"
      by (auto simp: lookupOrAskTypeName_def Let_def truthy_def
               split: option.splits prod.splits sum.splits if_splits)
    with ask False show ?thesis
      by (cases r)
         (auto simp: awaitInput_def recording_def truthy_def split: option.splits if_splits)
  qed
qed


lemma relationships_loop_unknown_calls:
  assumes u: "unknown_kind (typeOfRelation rel)"
      and run: "relationships_loop (rel # rest) tm (recording ask) (recording_inherited askI) st
                  (s, log) = (r, tm', (s', log'))"
  shows "\<exists>new. log' = log @ new \<and>
           prefix (map prompt new) (name_prompts tm rel) \<and>
           (\<forall>c\<in>set (butlast new). truthy (answer c)) \<and>
           (r = Inl UserCancelled \<and> new \<noteq> [] \<and> \<not> truthy (answer (last new)) \<or>
            r = Inl (UnknownRelationshipType (typeOfRelation rel)) \<and>
            map prompt new = name_prompts tm rel \<and> (\<forall>c\<in>set new. truthy (answer c)))"
proof -
  define pf where "pf = ''Enter new name for source type \"'' @ fromType rel @ ''\"''"
  define pt where "pt = ''Enter new name for target type \"'' @ toType rel @ ''\"''"
  have np: "name_prompts tm rel =
      (if truthy (tm (fromType rel)) then [] else [pf]) @
      (if truthy (tm (toType rel)) \<or> toType rel = fromType rel then [] else [pt])"
    by (simp add: name_prompts_def pf_def pt_def)
  from u have idx: "RELATIONSHIP_TYPE_MAPPING_index (typeOfRelation rel) = None"
    by (simp only: unknown_kind_index)
  obtain r1 m1 s1 log1 where a1: "lookupOrAskTypeName ''source'' (fromType rel) tm
      (recording ask) (s, log) = (r1, m1, (s1, log1))"
    by (cases "lookupOrAskTypeName ''source'' (fromType rel) tm (recording ask) (s, log)") auto
  from lookupOrAskTypeName_calls [OF a1] have c1:
    "(truthy (tm (fromType rel)) \<and> (\<exists>v. r1 = Inr v) \<and> m1 = tm \<and> log1 = log) \<or>
     (\<not> truthy (tm (fromType rel)) \<and>
      (\<exists>c. log1 = log @ [c] \<and> prompt c = pf \<and>
         ((\<not> truthy (answer c) \<and> r1 = Inl UserCancelled \<and> m1 = tm) \<or>
          (\<exists>x. truthy (answer c) \<and> x \<noteq> [] \<and> r1 = Inr x \<and> m1 = tm(fromType rel \<mapsto> x)))))"
    by (auto simp: pf_def truthy_def)
  show ?thesis
  proof (cases r1)
    case (Inl e)
    with a1 run have res: "r = Inl e" "log' = log1" by auto
    from Inl c1 obtain c where c: "\<not> truthy (tm (fromType rel))" "log1 = log @ [c]"
        "prompt c = pf" "\<not> truthy (answer c)" "e = UserCancelled"
      by auto
    have "log' = log @ [c] \<and> prefix (map prompt [c]) (name_prompts tm rel) \<and>
          (\<forall>c\<in>set (butlast [c]). truthy (answer c)) \<and>
          r = Inl UserCancelled \<and> [c] \<noteq> [] \<and> \<not> truthy (answer (last [c]))"
      using res c by (simp add: np)
    then show ?thesis by blast
  next
    case inr1: (Inr f)
    obtain r2 m2 s2 log2 where a2: "lookupOrAskTypeName ''target'' (toType rel) m1
        (recording ask) (s1, log1) = (r2, m2, (s2, log2))"
      by (cases "lookupOrAskTypeName ''target'' (toType rel) m1 (recording ask) (s1, log1)") auto
    from lookupOrAskTypeName_calls [OF a2] have c2:
      "(truthy (m1 (toType rel)) \<and> (\<exists>v. r2 = Inr v) \<and> log2 = log1) \<or>
       (\<not> truthy (m1 (toType rel)) \<and>
        (\<exists>c. log2 = log1 @ [c] \<and> prompt c = pt \<and>
           ((\<not> truthy (answer c) \<and> r2 = Inl UserCancelled) \<or>
            (truthy (answer c) \<and> (\<exists>x. r2 = Inr x)))))"
      by (auto simp: pt_def truthy_def)
    from inr1 c1 obtain new1 where n1: "log1 = log @ new1" "\<forall>c\<in>set new1. truthy (answer c)"
        "map prompt new1 = (if truthy (tm (fromType rel)) then [] else [pf])"
        "truthy (m1 (toType rel)) \<longleftrightarrow> truthy (tm (toType rel)) \<or> toType rel = fromType rel"
    proof (elim disjE conjE exE)
      assume "truthy (tm (fromType rel))" "m1 = tm" "log1 = log"
      then have "log1 = log @ []" "\<forall>c\<in>set []. truthy (answer c)"
        "map prompt [] = (if truthy (tm (fromType rel)) then [] else [pf])"
        "truthy (m1 (toType rel)) \<longleftrightarrow> truthy (tm (toType rel)) \<or> toType rel = fromType rel"
        by auto
      then show ?thesis by (rule that)
    next
      fix c x
      assume "\<not> truthy (tm (fromType rel))" "log1 = log @ [c]" "prompt c = pf"
        "truthy (answer c)" "x \<noteq> []" "m1 = tm(fromType rel \<mapsto> x)"
      then have "log1 = log @ [c]" "\<forall>c\<in>set [c]. truthy (answer c)"
        "map prompt [c] = (if truthy (tm (fromType rel)) then [] else [pf])"
        "truthy (m1 (toType rel)) \<longleftrightarrow> truthy (tm (toType rel)) \<or> toType rel = fromType rel"
        by (auto simp: truthy_def)
      then show ?thesis by (rule that)
    next
      fix c
      assume "r1 = Inl UserCancelled"
      with inr1 show ?thesis by simp
    qed
    show ?thesis
    proof (cases r2)
      case (Inl e)
      with inr1 a1 a2 run have res: "r = Inl e" "log' = log2" by auto
      from Inl c2 obtain c where c: "\<not> truthy (m1 (toType rel))" "log2 = log1 @ [c]"
          "prompt c = pt" "\<not> truthy (answer c)" "e = UserCancelled"
        by auto
      have "log' = log @ (new1 @ [c]) \<and>
            prefix (map prompt (new1 @ [c])) (name_prompts tm rel) \<and>
            (\<forall>c\<in>set (butlast (new1 @ [c])). truthy (answer c)) \<and>
            r = Inl UserCancelled \<and> new1 @ [c] \<noteq> [] \<and> \<not> truthy (answer (last (new1 @ [c])))"
        using res c n1 by (simp add: np)
      then show ?thesis by blast
    next
      case inr2: (Inr t)
      with inr1 a1 a2 run idx have res: "r = Inl (UnknownRelationshipType (typeOfRelation rel))"
          "log' = log2"
        by auto
      from inr2 c2 obtain new2 where n2: "log2 = log1 @ new2" "\<forall>c\<in>set new2. truthy (answer c)"
          "map prompt new2 = (if truthy (m1 (toType rel)) then [] else [pt])"
      proof (elim disjE conjE exE)
        assume "truthy (m1 (toType rel))" "log2 = log1"
        then have "log2 = log1 @ []" "\<forall>c\<in>set []. truthy (answer c)"
          "map prompt [] = (if truthy (m1 (toType rel)) then [] else [pt])"
          by auto
        then show ?thesis by (rule that)
      next
        fix c
        assume "\<not> truthy (m1 (toType rel))" "log2 = log1 @ [c]" "prompt c = pt" "truthy (answer c)"
        then have "log2 = log1 @ [c]" "\<forall>c\<in>set [c]. truthy (answer c)"
          "map prompt [c] = (if truthy (m1 (toType rel)) then [] else [pt])"
          by auto
        then show ?thesis by (rule that)
      next
        assume "r2 = Inl UserCancelled"
        with inr2 show ?thesis by simp
      qed
      have "log' = log @ (new1 @ new2) \<and>
            prefix (map prompt (new1 @ new2)) (name_prompts tm rel) \<and>
            (\<forall>c\<in>set (butlast (new1 @ new2)). truthy (answer c)) \<and>
            r = Inl (UnknownRelationshipType (typeOfRelation rel)) \<and>
            map prompt (new1 @ new2) = name_prompts tm rel \<and>
            (\<forall>c\<in>set (new1 @ new2). truthy (answer c))"
        using res n1 n2 by (auto simp: np dest: in_set_butlastD)
      then show ?thesis by blast
    qed
  qed
qed


lemma awaitInput_Inl: "awaitInput ask p v s = (Inl e, s') \<Longrightarrow> e = UserCancelled"
  by (auto simp: awaitInput_def split: prod.splits option.splits if_splits)

lemma awaitInputValue_Inl: "awaitInputValue ask askI p v s = (Inl e, s') \<Longrightarrow> e = UserCancelled"
  by (auto simp: awaitInputValue_def dest: awaitInput_Inl
           split: prod.splits option.splits sum.splits JsValue.splits if_splits)

lemma processMetricsSource_Inl:
  "processMetricsSource type newName source rule ms ask pc w s = (Inl e, s') \<Longrightarrow> e = UserCancelled"
  by (auto simp: processMetricsSource_def Let_def dest: awaitInput_Inl
           split: prod.splits sum.splits if_splits)

lemma processLogsSource_Inl:
  "processLogsSource type newName source rule ask pc w s = (Inl e, s') \<Longrightarrow> e = UserCancelled"
  by (auto simp: processLogsSource_def Let_def dest: awaitInput_Inl
           split: prod.splits sum.splits if_splits)

lemma ruleSources_loop_Inl:
  "ruleSources_loop type newName rule srcs ms ask st s = (Inl e, s') \<Longrightarrow> e = UserCancelled"
proof (induction srcs arbitrary: st s)
  case Nil
  then show ?case by simp
next
  case (Cons source rest)
  then show ?case
    by (auto dest: processMetricsSource_Inl processLogsSource_Inl
             split: prod.splits sum.splits if_splits)
qed

lemma typeRules_loop_Inl:
  "typeRules_loop type newName rs ms ask st s = (Inl e, s') \<Longrightarrow> e = UserCancelled"
proof (induction rs arbitrary: st s)
  case Nil
  then show ?case by simp
next
  case (Cons rule rest)
  then show ?case
    by (auto dest: ruleSources_loop_Inl split: prod.splits sum.splits)
qed

lemma topologyTypes_loop_Inl:
  "topologyTypes_loop ts ms ask st tm s = (Inl e, tm', s') \<Longrightarrow> e = UserCancelled"
proof (induction ts arbitrary: st tm s)
  case Nil
  then show ?case by simp
next
  case (Cons type rest)
  then show ?case
    by (auto simp: Let_def dest: awaitInput_Inl typeRules_loop_Inl split: prod.splits sum.splits)
qed

lemma createProcessorsFromTopology_Inl:
  "createProcessorsFromTopology ts ms ask tm s = (Inl e, tm', s') \<Longrightarrow> e = UserCancelled"
  by (auto simp: createProcessorsFromTopology_def dest: topologyTypes_loop_Inl
           split: prod.splits sum.splits)

lemma lookupOrAskTypeName_Inl:
  "lookupOrAskTypeName role n tm ask s = (Inl e, tm', s') \<Longrightarrow> e = UserCancelled"
  by (auto simp: lookupOrAskTypeName_def Let_def dest: awaitInput_Inl
           split: prod.splits sum.splits option.splits if_splits)

lemma relationshipSources_loop_Inl:
  "relationshipSources_loop rel f t e srcs ask st s = (Inl err, s') \<Longrightarrow> err = UserCancelled"
proof (induction srcs arbitrary: st s)
  case Nil
  then show ?case by simp
next
  case (Cons source rest)
  then show ?case
    by (auto simp: processMetricsRelationship_def processLogsRelationship_def Let_def
             dest: awaitInput_Inl split: prod.splits sum.splits if_splits)
qed

lemma relationships_loop_Inl:
  assumes "relationships_loop rels tm ask askI st s = (Inl e, tm', s')"
  shows "e = UserCancelled \<or>
         (\<exists>rel\<in>set rels. unknown_kind (typeOfRelation rel) \<and>
                          e = UnknownRelationshipType (typeOfRelation rel))"
  using assms
proof (induction rels arbitrary: tm st s)
  case Nil
  then show ?case by simp
next
  case (Cons rel rest)
  show ?case
  proof (cases "unknown_kind (typeOfRelation rel)")
    case True
    then have "RELATIONSHIP_TYPE_MAPPING_index (typeOfRelation rel) = None"
      by (simp only: unknown_kind_index)
    with Cons.prems True show ?thesis
      by (auto dest: lookupOrAskTypeName_Inl split: prod.splits sum.splits)
  next
    case False
    then obtain v where v: "RELATIONSHIP_TYPE_MAPPING_index (typeOfRelation rel) = Some v"
      by (auto simp: unknown_kind_index)
    then have nf: "\<not> falsy (Some v)" by (rule index_not_falsy)
    from Cons.prems v nf have
      "e = UserCancelled \<or>
       (\<exists>m2 st1 s4. relationships_loop rest m2 ask askI st1 s4 = (Inl e, tm', s'))"
      by (auto dest: lookupOrAskTypeName_Inl awaitInputValue_Inl relationshipSources_loop_Inl
               split: prod.splits sum.splits)
    with Cons.IH show ?thesis by auto
  qed
qed

lemma relationships_loop_Inr_known:
  assumes "relationships_loop rels tm ask askI st s = (Inr st', tm', s')"
  shows "\<forall>rel\<in>set rels. \<not> unknown_kind (typeOfRelation rel)"
  using assms
proof (induction rels arbitrary: tm st s)
  case Nil
  show ?case by simp
next
  case (Cons rel rest)
  from Cons.prems obtain m2 st1 s4 where
    known: "RELATIONSHIP_TYPE_MAPPING_index (typeOfRelation rel) \<noteq> None" and
    rec: "relationships_loop rest m2 ask askI st1 s4 = (Inr st', tm', s')"
    by (auto split: prod.splits sum.splits option.splits if_splits)
  from Cons.IH [OF rec] known show ?case by (simp add: unknown_kind_index)
qed

lemma unknown_kind_fails_run:
  assumes "unknown_kind (typeOfRelation rel)" and "rel \<in> set rels"
      and "topology extension = Some topo" and "relationships topo = Some rels"
  shows "\<exists>e. fst (convertTopologyToOpenPipeline extension ask askI s) = Inl e \<and>
             (e = UserCancelled \<or>
              (\<exists>rel'\<in>set rels. unknown_kind (typeOfRelation rel') \<and>
                                e = UnknownRelationshipType (typeOfRelation rel')))"
proof -
  let ?nodes = "case types topo of
                   None \<Rightarrow> (Inr \<lparr>metricsProcessors = [], logsProcessors = []\<rparr>, Some Map.empty, s)
                 | Some ts \<Rightarrow> createProcessorsFromTopology ts (metrics extension) ask
                       (Some Map.empty) s"
  obtain r1 m1 s1 where a1: "?nodes = (r1, m1, s1)" by (cases ?nodes) auto
  show ?thesis
  proof (cases r1)
    case (Inl e)
    with a1 have "e = UserCancelled"
      by (cases "types topo") (auto dest: createProcessorsFromTopology_Inl)
    with Inl a1 assms(3) show ?thesis by (simp add: convertTopologyToOpenPipeline_def)
  next
    case (Inr nodes)
    let ?tm = "case m1 of Some tm \<Rightarrow> tm | None \<Rightarrow> Map.empty"
    let ?init = "\<lparr>metricsProcessors = [], logsProcessors = [], metricsCounter = 0,
                   logsCounter = 0\<rparr>"
    obtain r2 m2 s2 where a2: "relationships_loop rels ?tm ask askI ?init s1 = (r2, m2, s2)"
      by (cases "relationships_loop rels ?tm ask askI ?init s1") auto
    show ?thesis
    proof (cases r2)
      case (Inl e)
      with a2 have e: "e = UserCancelled \<or>
         (\<exists>rel'\<in>set rels. unknown_kind (typeOfRelation rel') \<and>
                           e = UnknownRelationshipType (typeOfRelation rel'))"
        by (auto dest: relationships_loop_Inl)
      from Inl a2 have "createProcessorsFromRelationships rels ?tm ask askI s1 = (Inl e, m2, s2)"
        by (simp add: createProcessorsFromRelationships_def)
      with Inr a1 assms(3,4) have "fst (convertTopologyToOpenPipeline extension ask askI s) = Inl e"
        by (simp add: convertTopologyToOpenPipeline_def)
      with e show ?thesis by blast
    next
      case inr2: (Inr st')
      with a2 assms(1,2) relationships_loop_Inr_known [of rels ?tm ask askI ?init s1 st' m2 s2]
      show ?thesis by simp
    qed
  qed
qed


lemma relationships_loop_append:
  "relationships_loop (rs1 @ rs2) tm ask askI st s =
     (case relationships_loop rs1 tm ask askI st s of
        (Inl e, m, s') \<Rightarrow> (Inl e, m, s')
      | (Inr st1, m1, s1) \<Rightarrow> relationships_loop rs2 m1 ask askI st1 s1)"
proof (induction rs1 arbitrary: tm st s)
  case Nil
  show ?case by simp
next
  case (Cons rel rest)
  show ?case
    by (simp add: Cons.IH Let_def split: prod.splits sum.splits option.splits)
qed

text \<open>
  C2, as amended. Take a relationship whose \<open>typeOfRelation\<close> is outside the enumeration
  (and is no name that every JavaScript object inherits), reached by the loop of the
  edge compiler in any state. Edge compilation first resolves \<open>fromType\<close> and then
  \<open>toType\<close>: it asks the Resolution Port for each of the two that is not mapped, in
  that order and with the name prompt, and looks the others up. When a name prompt is
  not answered it raises the cancellation error at once; when every name prompt that
  the mapping calls for has been answered it raises the unknown-relationship-kind
  error. It makes no other call for the relationship: no edge-type prompt and no
  matcher prompt. The whole run returns that error or, when a call before it was
  cancelled, the cancellation error, and no processors.
\<close>

theorem unknown_relationship_kind:
  assumes "unknown_kind (typeOfRelation rel)"
      and "relationships_loop (rel # rest) tm (recording ask) (recording_inherited askI) st
             (s, log) = (r, tm', (s', log'))"
  shows "relationships_loop (rel # rest) tm ask askI st s = (r, tm', s') \<and>
         (\<exists>new. log' = log @ new \<and>
            prefix (map prompt new) (name_prompts tm rel) \<and>
            (\<forall>c\<in>set (butlast new). truthy (answer c)) \<and>
            (r = Inl UserCancelled \<and> new \<noteq> [] \<and> \<not> truthy (answer (last new)) \<or>
             r = Inl (UnknownRelationshipType (typeOfRelation rel)) \<and>
             map prompt new = name_prompts tm rel \<and> (\<forall>c\<in>set new. truthy (answer c)))) \<and>
         (\<forall>before tm0 st0 s0.
            relationships_loop before tm0 ask askI st0 s0 = (Inr st, tm, s) \<longrightarrow>
            relationships_loop (before @ rel # rest) tm0 ask askI st0 s0 = (r, tm', s')) \<and>
         (\<forall>extension topo rels s0.
            topology extension = Some topo \<and> relationships topo = Some rels \<and> rel \<in> set rels \<longrightarrow>
            (\<exists>e. fst (convertTopologyToOpenPipeline extension ask askI s0) = Inl e \<and>
                 (e = UserCancelled \<or>
                  (\<exists>rel'\<in>set rels. unknown_kind (typeOfRelation rel') \<and>
                                    e = UnknownRelationshipType (typeOfRelation rel')))))"
proof (intro conjI allI impI)
  from assms(2) have "relationships_loop (rel # rest) tm ask askI st s = (r, tm', s') \<and>
      answered_since log log' (failure r)"
    by (rule relationships_loop_recording)
  then show plain: "relationships_loop (rel # rest) tm ask askI st s = (r, tm', s')" ..
  fix before :: "Relationship list" and tm0 st0 and s0 :: 'a
  assume "relationships_loop before tm0 ask askI st0 s0 = (Inr st, tm, s)"
  with plain show "relationships_loop (before @ rel # rest) tm0 ask askI st0 s0 = (r, tm', s')"
    by (simp add: relationships_loop_append)
next
  from assms show "\<exists>new. log' = log @ new \<and>
            prefix (map prompt new) (name_prompts tm rel) \<and>
            (\<forall>c\<in>set (butlast new). truthy (answer c)) \<and>
            (r = Inl UserCancelled \<and> new \<noteq> [] \<and> \<not> truthy (answer (last new)) \<or>
             r = Inl (UnknownRelationshipType (typeOfRelation rel)) \<and>
             map prompt new = name_prompts tm rel \<and> (\<forall>c\<in>set new. truthy (answer c)))"
    by (rule relationships_loop_unknown_calls)
next
  fix extension :: ExtensionStub and topo rels and s0 :: 'a
  assume "topology extension = Some topo \<and> relationships topo = Some rels \<and> rel \<in> set rels"
  then have "rel \<in> set rels" "topology extension = Some topo" "relationships topo = Some rels"
    by simp_all
  with assms(1) show "\<exists>e. fst (convertTopologyToOpenPipeline extension ask askI s0) = Inl e \<and>
                 (e = UserCancelled \<or>
                  (\<exists>rel'\<in>set rels. unknown_kind (typeOfRelation rel') \<and>
                                    e = UnknownRelationshipType (typeOfRelation rel')))"
    by (rule unknown_kind_fails_run)
qed

theorem unknown_relationship_kind_witness:
  "relationships_loop
     [\<lparr>fromType = ''A'', toType = ''B'', typeOfRelation = ''FOLLOWS'',
       Relationship.sources = [\<lparr>Source.sourceType = ''Metrics'', condition = None\<rparr>]\<rparr>]
     [''A'' \<mapsto> ''HOST''] scripted scripted_inherited
     \<lparr>metricsProcessors = [], logsProcessors = [], metricsCounter = 0, logsCounter = 0\<rparr>
     [Some ''DISK'', Some ''follows''] =
   (Inl (UnknownRelationshipType ''FOLLOWS''), [''A'' \<mapsto> ''HOST'', ''B'' \<mapsto> ''DISK''],
    [Some ''follows'']) \<and>
   name_prompts [''A'' \<mapsto> ''HOST'']
     \<lparr>fromType = ''A'', toType = ''B'', typeOfRelation = ''FOLLOWS'',
      Relationship.sources = [\<lparr>Source.sourceType = ''Metrics'', condition = None\<rparr>]\<rparr> =
     [''Enter new name for target type \"B\"''] \<and>
   fst (convertTopologyToOpenPipeline
          \<lparr>ExtensionStub.name = ''custom:com.dynatrace.x'',
           topology = Some \<lparr>types = None,
               relationships = Some [\<lparr>fromType = ''A'', toType = ''B'',
                                       typeOfRelation = ''FOLLOWS'',
                                       Relationship.sources =
                                         [\<lparr>Source.sourceType = ''Metrics'',
                                           condition = None\<rparr>]\<rparr>]\<rparr>,
           metrics = None\<rparr> scripted scripted_inherited [Some ''HOST'', Some ''DISK'']) =
     Inl (UnknownRelationshipType ''FOLLOWS'')"
proof -
  let ?rel = "\<lparr>fromType = ''A'', toType = ''B'', typeOfRelation = ''FOLLOWS'',
       Relationship.sources = [\<lparr>Source.sourceType = ''Metrics'', condition = None\<rparr>]\<rparr>"
  let ?tm = "[''A'' \<mapsto> ''HOST'']"
  let ?topo = "\<lparr>types = None, relationships = Some [?rel]\<rparr>"
  let ?ext = "\<lparr>ExtensionStub.name = ''custom:com.dynatrace.x'', topology = Some ?topo,
                metrics = None\<rparr>"
  let ?init = "\<lparr>metricsProcessors = [], logsProcessors = [], metricsCounter = 0,
                 logsCounter = 0\<rparr>"
  have u: "unknown_kind (typeOfRelation ?rel)"
    by (simp add: unknown_kind_def Object_prototype_properties_def)
  have rec: "relationships_loop [?rel] ?tm (recording scripted)
      (recording_inherited scripted_inherited) ?init ([Some ''DISK'', Some ''follows''], []) =
      (Inl (UnknownRelationshipType ''FOLLOWS''), [''A'' \<mapsto> ''HOST'', ''B'' \<mapsto> ''DISK''],
       ([Some ''follows''],
        [\<lparr>prompt = ''Enter new name for target type \"B\"'', suggestedValue = ''B'',
          answer = Some ''DISK''\<rparr>]))"
    by (simp add: lookupOrAskTypeName_def awaitInput_def recording_def scripted_def
          suggestNewTypeName_def toUpperCase_def toUpperCase_char_def replace_all_char_def
          RELATIONSHIP_TYPE_MAPPING_index_def RELATIONSHIP_TYPE_MAPPING_def
          Object_prototype_properties_def Let_def)
  note kind = unknown_relationship_kind [OF u rec]
  from kind have 1: "relationships_loop [?rel] ?tm scripted scripted_inherited ?init
      [Some ''DISK'', Some ''follows''] =
      (Inl (UnknownRelationshipType ''FOLLOWS''), [''A'' \<mapsto> ''HOST'', ''B'' \<mapsto> ''DISK''],
       [Some ''follows''])"
    by (rule conjunct1)
  have 2: "name_prompts ?tm ?rel = [''Enter new name for target type \"B\"'']"
    by (simp add: name_prompts_def truthy_def)
  have e: "topology ?ext = Some ?topo \<and> relationships ?topo = Some [?rel] \<and> ?rel \<in> set [?rel]"
    by simp
  from kind [THEN conjunct2, THEN conjunct2, THEN conjunct2, rule_format, OF e,
             of "[Some ''HOST'', Some ''DISK'']"]
  obtain err where err: "fst (convertTopologyToOpenPipeline ?ext scripted scripted_inherited
      [Some ''HOST'', Some ''DISK'']) = Inl err"
      "err = UserCancelled \<or>
       (\<exists>rel'\<in>set [?rel]. unknown_kind (typeOfRelation rel') \<and>
                            err = UnknownRelationshipType (typeOfRelation rel'))"
    by (elim exE conjE)
  have "fst (convertTopologyToOpenPipeline ?ext scripted scripted_inherited
      [Some ''HOST'', Some ''DISK'']) \<noteq> Inl UserCancelled"
    by (simp add: convertTopologyToOpenPipeline_def createProcessorsFromRelationships_def
          lookupOrAskTypeName_def awaitInput_def scripted_def
          RELATIONSHIP_TYPE_MAPPING_index_def RELATIONSHIP_TYPE_MAPPING_def
          Object_prototype_properties_def Let_def)
  with err have 3: "fst (convertTopologyToOpenPipeline ?ext scripted scripted_inherited
      [Some ''HOST'', Some ''DISK'']) = Inl (UnknownRelationshipType ''FOLLOWS'')"
    by auto
  from 1 2 3 show ?thesis by (intro conjI)
qed

text \<open>
  The claim as stated fails when the names of the relationship are not mapped yet: the
  two name prompts are made, and answered, before the error is raised.
\<close>

theorem unknown_relationship_kind_after_prompts:
  "fst (createProcessorsFromRelationships
          [\<lparr>fromType = ''A'', toType = ''B'', typeOfRelation = ''FOLLOWS'',
            Relationship.sources = []\<rparr>]
          Map.empty (recording autoInputCallback) (recording_inherited autoInputCallback_inherited)
          ((), [])) =
     Inl (UnknownRelationshipType ''FOLLOWS'') \<and>
   snd (snd (snd (createProcessorsFromRelationships
          [\<lparr>fromType = ''A'', toType = ''B'', typeOfRelation = ''FOLLOWS'',
            Relationship.sources = []\<rparr>]
          Map.empty (recording autoInputCallback) (recording_inherited autoInputCallback_inherited)
          ((), [])))) =
     [\<lparr>prompt = ''Enter new name for source type \"A\"'', suggestedValue = ''A'',
       answer = Some ''A''\<rparr>,
      \<lparr>prompt = ''Enter new name for target type \"B\"'', suggestedValue = ''B'',
       answer = Some ''B''\<rparr>]"
  by (simp add: createProcessorsFromRelationships_def lookupOrAskTypeName_def awaitInput_def
        recording_def autoInputCallback_def suggestNewTypeName_def toUpperCase_def
        toUpperCase_char_def replace_all_char_def RELATIONSHIP_TYPE_MAPPING_index_def
        RELATIONSHIP_TYPE_MAPPING_def Object_prototype_properties_def Let_def)

subsection \<open>The prompts of a run\<close>

text \<open>
  Below the name prompt of a type, the node compiler makes matcher prompts only; below
  the two name prompts of a relationship, the edge compiler makes the edge-type prompt
  and matcher prompts only.
\<close>

lemma calls_since_refl: "calls_since P log log"
  by (simp add: calls_since_def)

lemma calls_since_trans:
  assumes "calls_since P log log1" and "calls_since P log1 log2"
  shows "calls_since P log log2"
proof -
  from assms obtain new1 new2 where "log1 = log @ new1" "\<forall>c\<in>set new1. P c"
      "log2 = log1 @ new2" "\<forall>c\<in>set new2. P c"
    unfolding calls_since_def by blast
  then have "log2 = log @ (new1 @ new2) \<and> (\<forall>c\<in>set (new1 @ new2). P c)" by auto
  then show ?thesis unfolding calls_since_def by blast
qed

lemma awaitInput_matcher_call:
  assumes "prefix ''Enter matcher condition'' p"
      and "awaitInput (recording ask) p v (s, log) = (r, (s', log'))"
  shows "calls_since matcher_prompt log log'"
proof -
  from awaitInput_recording(2) [OF assms(2)]
  have "log' = log @ [\<lparr>prompt = p, suggestedValue = v, answer = fst (ask s p v)\<rparr>]" .
  moreover from assms(1)
  have "\<forall>c\<in>set [\<lparr>prompt = p, suggestedValue = v, answer = fst (ask s p v)\<rparr>]. matcher_prompt c"
    by (simp add: matcher_prompt_def)
  ultimately show ?thesis unfolding calls_since_def by blast
qed

lemma processMetricsSource_calls:
  assumes "processMetricsSource type newName source rule ms (recording ask) pc w (s, log) =
           (r, (s', log'))"
  shows "calls_since matcher_prompt log log'"
proof -
  let ?p1 = "''Enter matcher condition for entity extraction (extractNode: false) for \"'' @
              TopologyType.displayName type @ ''\"''"
  let ?v1 = "convertConditionToMatcher (condition source)"
  obtain r1 s1 log1 where a1: "awaitInput (recording ask) ?p1 ?v1 (s, log) = (r1, (s1, log1))"
    by (cases "awaitInput (recording ask) ?p1 ?v1 (s, log)") auto
  have c1: "calls_since matcher_prompt log log1"
    by (rule awaitInput_matcher_call [OF _ a1]) simp
  show ?thesis
  proof (cases r1)
    case (Inl e)
    with assms a1 have "log' = log1" by (auto simp: processMetricsSource_def Let_def)
    with c1 show ?thesis by simp
  next
    case (Inr entityMatcher)
    show ?thesis
    proof (cases "newName \<in> w")
      case True
      with Inr assms a1 have "log' = log1" by (auto simp: processMetricsSource_def Let_def)
      with c1 show ?thesis by simp
    next
      case False
      let ?p2 = "''Enter matcher condition for node extraction (extractNode: true) for \"'' @
                 TopologyType.displayName type @ ''\"''"
      let ?v2 = "case findMatchingMetric (condition source) ms of
                   None \<Rightarrow> ?v1
                 | Some k \<Rightarrow> if k = [] then ?v1 else ''matchesValue(metric.key, \"'' @ k @ ''\")''"
      obtain r2 s2 log2 where
        a2: "awaitInput (recording ask) ?p2 ?v2 (s1, log1) = (r2, (s2, log2))"
        by (cases "awaitInput (recording ask) ?p2 ?v2 (s1, log1)") auto
      have c2: "calls_since matcher_prompt log1 log2"
        by (rule awaitInput_matcher_call [OF _ a2]) simp
      from False Inr assms a1 a2 have "log' = log2"
        by (cases r2) (auto simp: processMetricsSource_def Let_def)
      with c1 c2 show ?thesis by (auto intro: calls_since_trans)
    qed
  qed
qed

lemma processLogsSource_calls:
  assumes "processLogsSource type newName source rule (recording ask) pc w (s, log) =
           (r, (s', log'))"
  shows "calls_since matcher_prompt log log'"
proof -
  let ?p1 = "''Enter matcher condition for entity extraction (extractNode: false) for \"'' @
              TopologyType.displayName type @ ''\" (Logs)''"
  let ?v1 = "convertRequiredDimensionsToMatcher (requiredDimensions rule)"
  obtain r1 s1 log1 where a1: "awaitInput (recording ask) ?p1 ?v1 (s, log) = (r1, (s1, log1))"
    by (cases "awaitInput (recording ask) ?p1 ?v1 (s, log)") auto
  have c1: "calls_since matcher_prompt log log1"
    by (rule awaitInput_matcher_call [OF _ a1]) simp
  show ?thesis
  proof (cases r1)
    case (Inl e)
    with assms a1 have "log' = log1" by (auto simp: processLogsSource_def Let_def)
    with c1 show ?thesis by simp
  next
    case (Inr entityMatcher)
    show ?thesis
    proof (cases "newName \<in> w")
      case True
      with Inr assms a1 have "log' = log1" by (auto simp: processLogsSource_def Let_def)
      with c1 show ?thesis by simp
    next
      case False
      let ?p2 = "''Enter matcher condition for node extraction (extractNode: true) for \"'' @
                 TopologyType.displayName type @ ''\" (Logs)''"
      obtain r2 s2 log2 where
        a2: "awaitInput (recording ask) ?p2 ?v1 (s1, log1) = (r2, (s2, log2))"
        by (cases "awaitInput (recording ask) ?p2 ?v1 (s1, log1)") auto
      have c2: "calls_since matcher_prompt log1 log2"
        by (rule awaitInput_matcher_call [OF _ a2]) simp
      from False Inr assms a1 a2 have "log' = log2"
        by (cases r2) (auto simp: processLogsSource_def Let_def)
      with c1 c2 show ?thesis by (auto intro: calls_since_trans)
    qed
  qed
qed

lemma ruleSources_loop_calls:
  assumes "ruleSources_loop type newName rule srcs ms (recording ask) st (s, log) =
           (r, (s', log'))"
  shows "calls_since matcher_prompt log log'"
  using assms
proof (induction srcs arbitrary: st s log)
  case Nil
  then show ?case by (auto simp: calls_since_refl)
next
  case (Cons source rest)
  show ?case
  proof (cases "Source.sourceType source = ''Metrics''")
    case True
    obtain r1 s1 log1 where a: "processMetricsSource type newName source rule ms (recording ask)
        (metricsCounter st) (entityTypesWithNodeExtraction st) (s, log) = (r1, (s1, log1))"
      by (cases "processMetricsSource type newName source rule ms (recording ask)
        (metricsCounter st) (entityTypesWithNodeExtraction st) (s, log)") auto
    note f = processMetricsSource_calls [OF a]
    show ?thesis
    proof (cases r1)
      case (Inl e)
      with True a Cons.prems have "log' = log1" by auto
      with f show ?thesis by simp
    next
      case (Inr pw)
      obtain ps w' where pw: "pw = (ps, w')" by (cases pw)
      from True a Inr pw Cons.prems have
        "ruleSources_loop type newName rule rest ms (recording ask)
           (st\<lparr>metricsProcessors := metricsProcessors st @ ps,
               metricsCounter := metricsCounter st + length ps,
               entityTypesWithNodeExtraction := w'\<rparr>) (s1, log1) = (r, (s', log'))"
        by simp
      from f Cons.IH [OF this] show ?thesis by (rule calls_since_trans)
    qed
  next
    case notMetrics: False
    show ?thesis
    proof (cases "Source.sourceType source = ''Logs''")
      case True
      obtain r1 s1 log1 where a: "processLogsSource type newName source rule (recording ask)
          (logsCounter st) (entityTypesWithNodeExtraction st) (s, log) = (r1, (s1, log1))"
        by (cases "processLogsSource type newName source rule (recording ask)
          (logsCounter st) (entityTypesWithNodeExtraction st) (s, log)") auto
      note f = processLogsSource_calls [OF a]
      show ?thesis
      proof (cases r1)
        case (Inl e)
        with True notMetrics a Cons.prems have "log' = log1" by auto
        with f show ?thesis by simp
      next
        case (Inr pw)
        obtain ps w' where pw: "pw = (ps, w')" by (cases pw)
        from True notMetrics a Inr pw Cons.prems have
          "ruleSources_loop type newName rule rest ms (recording ask)
             (st\<lparr>logsProcessors := logsProcessors st @ ps,
                 logsCounter := logsCounter st + length ps,
                 entityTypesWithNodeExtraction := w'\<rparr>) (s1, log1) = (r, (s', log'))"
          by simp
        from f Cons.IH [OF this] show ?thesis by (rule calls_since_trans)
      qed
    next
      case False
      with notMetrics Cons.prems have
        "ruleSources_loop type newName rule rest ms (recording ask) st (s, log) = (r, (s', log'))"
        by simp
      then show ?thesis by (rule Cons.IH)
    qed
  qed
qed

lemma typeRules_loop_calls:
  assumes "typeRules_loop type newName rs ms (recording ask) st (s, log) = (r, (s', log'))"
  shows "calls_since matcher_prompt log log'"
  using assms
proof (induction rs arbitrary: st s log)
  case Nil
  then show ?case by (auto simp: calls_since_refl)
next
  case (Cons rule rest)
  obtain r1 s1 log1 where a: "ruleSources_loop type newName rule (Rule.sources rule) ms
      (recording ask) st (s, log) = (r1, (s1, log1))"
    by (cases "ruleSources_loop type newName rule (Rule.sources rule) ms
      (recording ask) st (s, log)") auto
  note f = ruleSources_loop_calls [OF a]
  show ?case
  proof (cases r1)
    case (Inl e)
    with a Cons.prems have "log' = log1" by auto
    with f show ?thesis by simp
  next
    case (Inr st1)
    with a Cons.prems have
      "typeRules_loop type newName rest ms (recording ask) st1 (s1, log1) = (r, (s', log'))"
      by simp
    from f Cons.IH [OF this] show ?thesis by (rule calls_since_trans)
  qed
qed

lemma matcher_not_type_name: "matcher_prompt c \<Longrightarrow> \<not> type_name_prompt c"
proof
  assume "matcher_prompt c" "type_name_prompt c"
  then have "prefix ''Enter matcher condition'' (prompt c)"
      "prefix ''Enter new name for type \"'' (prompt c)"
    by (simp_all add: matcher_prompt_def type_name_prompt_def)
  then have "prefix ''Enter matcher condition'' ''Enter new name for type \"'' \<or>
             prefix ''Enter new name for type \"'' ''Enter matcher condition''"
    by (rule prefix_same_cases)
  then show False by simp
qed

lemma topologyTypes_loop_calls:
  assumes "topologyTypes_loop ts ms (recording ask) st tm (s, log) = (r, tm', (s', log'))"
  shows "\<exists>new. log' = log @ new \<and>
           (\<forall>c\<in>set new. type_name_prompt c \<or> matcher_prompt c) \<and>
           prefix (map prompt (filter type_name_prompt new))
             (map (\<lambda>t. ''Enter new name for type \"'' @ TopologyType.name t @ ''\"'') ts) \<and>
           ((\<exists>st'. r = Inr st') \<longrightarrow>
              map prompt (filter type_name_prompt new) =
              map (\<lambda>t. ''Enter new name for type \"'' @ TopologyType.name t @ ''\"'') ts)"
  using assms
proof (induction ts arbitrary: st tm s log)
  case Nil
  then have "log' = log @ []" by simp
  moreover from Nil have "\<exists>st'. r = Inr st'" by auto
  ultimately show ?case by (intro exI [of _ "[]"]) simp
next
  case (Cons type rest)
  let ?P = "\<lambda>t. ''Enter new name for type \"'' @ TopologyType.name t @ ''\"''"
  define p where "p = ?P type"
  obtain r1 s1 log1 where a1: "awaitInput (recording ask) p
      (suggestNewTypeName (TopologyType.name type)) (s, log) = (r1, (s1, log1))"
    by (cases "awaitInput (recording ask) p
      (suggestNewTypeName (TopologyType.name type)) (s, log)") auto
  from awaitInput_recording(2) [OF a1] obtain c1 where
    c1: "log1 = log @ [c1]" "prompt c1 = p"
    by simp
  then have t1: "type_name_prompt c1" by (simp add: type_name_prompt_def p_def)
  show ?case
  proof (cases r1)
    case (Inl e)
    with a1 Cons.prems have "log' = log1" "r = Inl e" by (simp_all add: p_def)
    with c1 t1 have "log' = log @ [c1] \<and>
           (\<forall>c\<in>set [c1]. type_name_prompt c \<or> matcher_prompt c) \<and>
           prefix (map prompt (filter type_name_prompt [c1])) (map ?P (type # rest)) \<and>
           ((\<exists>st'. r = Inr st') \<longrightarrow>
              map prompt (filter type_name_prompt [c1]) = map ?P (type # rest))"
      by (simp add: p_def)
    then show ?thesis by (rule exI [of _ "[c1]"])
  next
    case (Inr newName)
    define tm1 where "tm1 = (case tm of None \<Rightarrow> None
                             | Some m \<Rightarrow> Some (m(TopologyType.name type \<mapsto> newName)))"
    obtain r2 s2 log2 where a2: "typeRules_loop type newName (rules type) ms (recording ask) st
        (s1, log1) = (r2, (s2, log2))"
      by (cases "typeRules_loop type newName (rules type) ms (recording ask) st (s1, log1)") auto
    from typeRules_loop_calls [OF a2] obtain new2 where
      n2: "log2 = log1 @ new2" "\<forall>c\<in>set new2. matcher_prompt c"
      unfolding calls_since_def by blast
    then have f2: "filter type_name_prompt new2 = []"
      by (auto simp: filter_empty_conv dest: matcher_not_type_name)
    show ?thesis
    proof (cases r2)
      case (Inl e)
      with Inr a1 a2 Cons.prems have "log' = log2" "r = Inl e"
        by (simp_all add: p_def Let_def)
      with c1 t1 n2 f2 have "log' = log @ (c1 # new2) \<and>
           (\<forall>c\<in>set (c1 # new2). type_name_prompt c \<or> matcher_prompt c) \<and>
           prefix (map prompt (filter type_name_prompt (c1 # new2))) (map ?P (type # rest)) \<and>
           ((\<exists>st'. r = Inr st') \<longrightarrow>
              map prompt (filter type_name_prompt (c1 # new2)) = map ?P (type # rest))"
        by (simp add: p_def)
      then show ?thesis by (rule exI [of _ "c1 # new2"])
    next
      case inr2: (Inr st2)
      with Inr a1 a2 Cons.prems have
        "topologyTypes_loop rest ms (recording ask) st2 tm1 (s2, log2) = (r, tm', (s', log'))"
        by (simp add: p_def tm1_def Let_def)
      from Cons.IH [OF this] obtain new3 where
        n3: "log' = log2 @ new3" "\<forall>c\<in>set new3. type_name_prompt c \<or> matcher_prompt c"
            "prefix (map prompt (filter type_name_prompt new3)) (map ?P rest)"
            "(\<exists>st'. r = Inr st') \<longrightarrow> map prompt (filter type_name_prompt new3) = map ?P rest"
        by blast
      from c1 t1 n2 f2 n3 have "log' = log @ (c1 # new2 @ new3) \<and>
           (\<forall>c\<in>set (c1 # new2 @ new3). type_name_prompt c \<or> matcher_prompt c) \<and>
           prefix (map prompt (filter type_name_prompt (c1 # new2 @ new3))) (map ?P (type # rest)) \<and>
           ((\<exists>st'. r = Inr st') \<longrightarrow>
              map prompt (filter type_name_prompt (c1 # new2 @ new3)) = map ?P (type # rest))"
        by (auto simp: p_def)
      then show ?thesis by (rule exI [of _ "c1 # new2 @ new3"])
    qed
  qed
qed


lemma matcher_not_asks: "matcher_prompt c \<Longrightarrow> \<not> asks_name k c"
  by (auto simp: matcher_prompt_def asks_name_def)

lemma edge_type_not_asks: "edge_type_prompt c \<Longrightarrow> \<not> asks_name k c"
  by (auto simp: edge_type_prompt_def asks_name_def)

lemma asks_name_prompt:
  assumes "role = ''source'' \<or> role = ''target''"
      and "prompt c = ''Enter new name for '' @ role @ '' type \"'' @ n @ ''\"''"
  shows "asks_name k c \<longleftrightarrow> k = n"
  using assms by (auto simp: asks_name_def)

lemma resolved_once_quiet:
  assumes "\<forall>c\<in>set new. matcher_prompt c \<or> edge_type_prompt c"
  shows "resolved_once tm new tm" and "answered_names new tm'"
proof -
  from assms have "\<And>k. filter (asks_name k) new = []"
    by (auto simp: filter_empty_conv dest: matcher_not_asks edge_type_not_asks)
  then show "resolved_once tm new tm" and "answered_names new tm'"
    by (simp_all add: resolved_once_def answered_names_def)
qed

lemma resolved_once_trans:
  assumes "resolved_once tm new1 m1" and "answered_names new1 m1" and "resolved_once m1 new2 m2"
  shows "resolved_once tm (new1 @ new2) m2"
  unfolding resolved_once_def
proof (intro conjI allI impI)
  fix k
  from assms(1) have b1: "length (filter (asks_name k) new1) \<le> (if truthy (tm k) then 0 else 1)"
      and k1: "truthy (tm k) \<longrightarrow> m1 k = tm k"
    by (simp_all add: resolved_once_def)
  from assms(3) have b2: "length (filter (asks_name k) new2) \<le> (if truthy (m1 k) then 0 else 1)"
    by (simp add: resolved_once_def)
  from assms(2) have a1: "filter (asks_name k) new1 \<noteq> [] \<longrightarrow> truthy (m1 k)"
    by (simp add: answered_names_def)
  show "length (filter (asks_name k) (new1 @ new2)) \<le> (if truthy (tm k) then 0 else 1)"
  proof (cases "truthy (tm k)")
    case True
    with k1 have "truthy (m1 k)" by simp
    with True b1 b2 show ?thesis by simp
  next
    case False
    show ?thesis
    proof (cases "filter (asks_name k) new1 = []")
      case True
      with b2 False show ?thesis by (simp split: if_splits)
    next
      case ne: False
      with a1 have "truthy (m1 k)" by simp
      with b1 b2 False show ?thesis by simp
    qed
  qed
next
  fix k assume t: "truthy (tm k)"
  with assms(1) have "m1 k = tm k" by (simp add: resolved_once_def)
  moreover from this t assms(3) have "m2 k = m1 k" by (simp add: resolved_once_def)
  ultimately show "m2 k = tm k" by simp
qed

lemma answered_names_trans:
  assumes "answered_names new1 m1" and "resolved_once m1 new2 m2" and "answered_names new2 m2"
  shows "answered_names (new1 @ new2) m2"
  unfolding answered_names_def
proof (intro allI impI)
  fix k assume "filter (asks_name k) (new1 @ new2) \<noteq> []"
  then have "filter (asks_name k) new1 \<noteq> [] \<or> filter (asks_name k) new2 \<noteq> []" by simp
  then show "truthy (m2 k)"
  proof
    assume "filter (asks_name k) new1 \<noteq> []"
    with assms(1) have "truthy (m1 k)" by (simp add: answered_names_def)
    with assms(2) show ?thesis by (simp add: resolved_once_def)
  next
    assume "filter (asks_name k) new2 \<noteq> []"
    with assms(3) show ?thesis by (simp add: answered_names_def)
  qed
qed

lemma lookupOrAskTypeName_asks:
  assumes run: "lookupOrAskTypeName role n tm (recording ask) (s, log) = (r, tm', (s', log'))"
      and role: "role = ''source'' \<or> role = ''target''"
  shows "\<exists>new. log' = log @ new \<and> resolved_once tm new tm' \<and>
           ((\<exists>x. r = Inr x) \<longrightarrow> answered_names new tm')"
proof -
  define p where "p = ''Enter new name for '' @ role @ '' type \"'' @ n @ ''\"''"
  from lookupOrAskTypeName_calls [OF run] have
    "(truthy (tm n) \<and> tm' = tm \<and> log' = log) \<or>
     (\<not> truthy (tm n) \<and>
      (\<exists>c. log' = log @ [c] \<and> prompt c = p \<and>
           (tm' = tm \<and> (\<exists>e. r = Inl e) \<or> (\<exists>x. x \<noteq> [] \<and> tm' = tm(n \<mapsto> x)))))"
    by (auto simp: p_def)
  then consider (mapped) "tm' = tm" "log' = log"
    | (asked) c where "\<not> truthy (tm n)" "log' = log @ [c]" "prompt c = p"
       "tm' = tm \<and> (\<exists>e. r = Inl e) \<or> (\<exists>x. x \<noteq> [] \<and> tm' = tm(n \<mapsto> x))"
    by blast
  then show ?thesis
  proof cases
    case mapped
    then have "log' = log @ [] \<and> resolved_once tm [] tm' \<and>
           ((\<exists>x. r = Inr x) \<longrightarrow> answered_names [] tm')"
      by (simp add: resolved_once_def answered_names_def)
    then show ?thesis by (rule exI [of _ "[]"])
  next
    case h: asked
    from role h(3) have an: "\<And>k. asks_name k c \<longleftrightarrow> k = n"
      unfolding p_def by (rule asks_name_prompt)
    from h(4) have "resolved_once tm [c] tm' \<and> ((\<exists>x. r = Inr x) \<longrightarrow> answered_names [c] tm')"
    proof (elim disjE conjE exE)
      fix e assume "tm' = tm" "r = Inl e"
      with h(1) an show ?thesis by (auto simp: resolved_once_def)
    next
      fix x assume "x \<noteq> []" "tm' = tm(n \<mapsto> x)"
      with h(1) an show ?thesis by (auto simp: resolved_once_def answered_names_def truthy_def)
    qed
    with h(2) have "log' = log @ [c] \<and> resolved_once tm [c] tm' \<and>
           ((\<exists>x. r = Inr x) \<longrightarrow> answered_names [c] tm')"
      by simp
    then show ?thesis by (rule exI [of _ "[c]"])
  qed
qed

lemma awaitInputValue_edge_call:
  assumes "prefix ''Enter edge type'' p"
      and "awaitInputValue (recording ask) (recording_inherited askI) p v (s, log) =
           (r, (s', log'))"
  shows "calls_since edge_type_prompt log log'"
proof -
  from assms(2) obtain c where "log' = log @ [c]" "prompt c = p"
  proof (cases v)
    case (Text x)
    obtain r1 s1 log1 where a1: "awaitInput (recording ask) p x (s, log) = (r1, (s1, log1))"
      by (cases "awaitInput (recording ask) p x (s, log)") auto
    from awaitInput_recording(2) [OF a1] obtain c where c: "log1 = log @ [c]" "prompt c = p"
      by simp
    from Text a1 assms(2) have "log' = log1" by (cases r1) (simp_all add: awaitInputValue_def)
    with c that show ?thesis by simp
  next
    case (Inherited k)
    obtain a s1 where "askI s p k = (a, s1)" by (cases "askI s p k")
    with Inherited assms(2) have
      "log' = log @ [\<lparr>prompt = p, suggestedValue = templateText (Inherited k),
                      answer = map_option templateText a\<rparr>]"
      by (auto simp: awaitInputValue_def recording_inherited_def
               split: option.splits JsValue.splits if_splits)
    with that show ?thesis by simp
  qed
  with assms(1) have "log' = log @ [c] \<and> (\<forall>c\<in>set [c]. edge_type_prompt c)"
    by (simp add: edge_type_prompt_def)
  then show ?thesis unfolding calls_since_def by (rule exI [of _ "[c]"])
qed

lemma relationshipSources_loop_calls:
  assumes "relationshipSources_loop rel f t e srcs (recording ask) st (s, log) =
           (r, (s', log'))"
  shows "calls_since matcher_prompt log log'"
  using assms
proof (induction srcs arbitrary: st s log)
  case Nil
  then show ?case by (auto simp: calls_since_refl)
next
  case (Cons source rest)
  show ?case
  proof (cases "Source.sourceType source = ''Metrics''")
    case True
    let ?p = "''Enter matcher condition for relationship \"'' @ fromType rel @ ''\" '' @
              arrow @ '' \"'' @ toType rel @ ''\" ('' @ templateText e @ '')''"
    let ?v = "convertConditionToMatcher (condition source)"
    obtain r1 s1 log1 where a1: "awaitInput (recording ask) ?p ?v (s, log) = (r1, (s1, log1))"
      by (cases "awaitInput (recording ask) ?p ?v (s, log)") auto
    have f: "calls_since matcher_prompt log log1"
      by (rule awaitInput_matcher_call [OF _ a1]) simp
    show ?thesis
    proof (cases r1)
      case (Inl err)
      with True a1 Cons.prems have "log' = log1"
        by (simp add: processMetricsRelationship_def Let_def)
      with f show ?thesis by simp
    next
      case (Inr matcher')
      with True a1 Cons.prems obtain st1 where
        "relationshipSources_loop rel f t e rest (recording ask) st1 (s1, log1) = (r, (s', log'))"
        by (simp add: processMetricsRelationship_def Let_def)
      from f Cons.IH [OF this] show ?thesis by (rule calls_since_trans)
    qed
  next
    case notMetrics: False
    show ?thesis
    proof (cases "Source.sourceType source = ''Logs''")
      case True
      let ?p = "''Enter matcher condition for relationship \"'' @ fromType rel @
                 ''\" '' @ arrow @ '' \"'' @ toType rel @ ''\" ('' @ templateText e @
                 '') (Logs)''"
      let ?v = "if truthy (condition source) then convertConditionToMatcher (condition source)
                else ''isNotNull(content)''"
      obtain r1 s1 log1 where a1: "awaitInput (recording ask) ?p ?v (s, log) = (r1, (s1, log1))"
        by (cases "awaitInput (recording ask) ?p ?v (s, log)") auto
      have f: "calls_since matcher_prompt log log1"
        by (rule awaitInput_matcher_call [OF _ a1]) simp
      show ?thesis
      proof (cases r1)
        case (Inl err)
        with True notMetrics a1 Cons.prems have "log' = log1"
          by (simp add: processLogsRelationship_def Let_def)
        with f show ?thesis by simp
      next
        case (Inr matcher')
        with True notMetrics a1 Cons.prems obtain st1 where
          "relationshipSources_loop rel f t e rest (recording ask) st1 (s1, log1) =
           (r, (s', log'))"
          by (simp add: processLogsRelationship_def Let_def)
        from f Cons.IH [OF this] show ?thesis by (rule calls_since_trans)
      qed
    next
      case False
      with notMetrics Cons.prems have
        "relationshipSources_loop rel f t e rest (recording ask) st (s, log) = (r, (s', log'))"
        by simp
      then show ?thesis by (rule Cons.IH)
    qed
  qed
qed


lemma relationships_loop_asks:
  assumes "relationships_loop rels tm (recording ask) (recording_inherited askI) st (s, log) =
           (r, tm', (s', log'))"
  shows "\<exists>new. log' = log @ new \<and> resolved_once tm new tm'"
  using assms
proof (induction rels arbitrary: tm st s log)
  case Nil
  then have "log' = log @ [] \<and> resolved_once tm [] tm'"
    by (auto simp: resolved_once_def)
  then show ?case by (rule exI [of _ "[]"])
next
  case (Cons rel rest)
  obtain r1 m1 s1 log1 where a1: "lookupOrAskTypeName ''source'' (fromType rel) tm
      (recording ask) (s, log) = (r1, m1, (s1, log1))"
    by (cases "lookupOrAskTypeName ''source'' (fromType rel) tm (recording ask) (s, log)") auto
  from lookupOrAskTypeName_asks [OF a1] obtain new1 where
    n1: "log1 = log @ new1" and ro1: "resolved_once tm new1 m1" and
    an1: "(\<exists>x. r1 = Inr x) \<longrightarrow> answered_names new1 m1"
    by auto
  show ?case
  proof (cases r1)
    case (Inl e)
    with a1 Cons.prems have "log' = log1" "tm' = m1" by simp_all
    with n1 ro1 have "log' = log @ new1 \<and> resolved_once tm new1 tm'" by simp
    then show ?thesis by (rule exI [of _ new1])
  next
    case inr1: (Inr fromTypeName)
    with an1 have an1': "answered_names new1 m1" by simp
    obtain r2 m2 s2 log2 where a2: "lookupOrAskTypeName ''target'' (toType rel) m1
        (recording ask) (s1, log1) = (r2, m2, (s2, log2))"
      by (cases "lookupOrAskTypeName ''target'' (toType rel) m1 (recording ask) (s1, log1)") auto
    from lookupOrAskTypeName_asks [OF a2] obtain new2 where
      n2: "log2 = log1 @ new2" and ro2: "resolved_once m1 new2 m2" and
      an2: "(\<exists>x. r2 = Inr x) \<longrightarrow> answered_names new2 m2"
      by auto
    from ro1 an1' ro2 have ro12: "resolved_once tm (new1 @ new2) m2"
      by (rule resolved_once_trans)
    from n1 n2 have l2: "log2 = log @ (new1 @ new2)" by simp
    show ?thesis
    proof (cases r2)
      case (Inl e)
      with inr1 a1 a2 Cons.prems have "log' = log2" "tm' = m2" by simp_all
      with l2 ro12 have "log' = log @ (new1 @ new2) \<and> resolved_once tm (new1 @ new2) tm'"
        by simp
      then show ?thesis by (rule exI [of _ "new1 @ new2"])
    next
      case inr2: (Inr toTypeName)
      with an2 have "answered_names new2 m2" by simp
      with an1' ro2 have an12: "answered_names (new1 @ new2) m2"
        by (rule answered_names_trans)
      show ?thesis
      proof (cases "RELATIONSHIP_TYPE_MAPPING_index (typeOfRelation rel) = None \<or>
                    falsy (RELATIONSHIP_TYPE_MAPPING_index (typeOfRelation rel))")
        case True
        with inr1 inr2 a1 a2 Cons.prems have "log' = log2 \<and> tm' = m2"
          by (auto split: option.splits)
        with l2 ro12 have "log' = log @ (new1 @ new2) \<and> resolved_once tm (new1 @ new2) tm'"
          by simp
        then show ?thesis by (rule exI [of _ "new1 @ new2"])
      next
        case False
        then obtain suggestedEdgeType where
          some: "RELATIONSHIP_TYPE_MAPPING_index (typeOfRelation rel) = Some suggestedEdgeType"
            "\<not> falsy (Some suggestedEdgeType)"
          by auto
        define p where "p = ''Enter edge type for \"'' @ fromType rel @ ''\" '' @ arrow @
                  '' \"'' @ toType rel @ ''\" (was '' @ typeOfRelation rel @ '')''"
        obtain r3 s3 log3 where a3: "awaitInputValue (recording ask) (recording_inherited askI)
            p suggestedEdgeType (s2, log2) = (r3, (s3, log3))"
          by (cases "awaitInputValue (recording ask) (recording_inherited askI)
            p suggestedEdgeType (s2, log2)") auto
        have "prefix ''Enter edge type'' p" by (simp add: p_def)
        from awaitInputValue_edge_call [OF this a3] obtain new3 where
          n3: "log3 = log2 @ new3" "\<forall>c\<in>set new3. edge_type_prompt c"
          unfolding calls_since_def by blast
        then have q3: "\<forall>c\<in>set new3. matcher_prompt c \<or> edge_type_prompt c" by simp
        from ro12 an12 resolved_once_quiet(1) [OF q3]
        have ro3: "resolved_once tm ((new1 @ new2) @ new3) m2"
          by (rule resolved_once_trans)
        from an12 resolved_once_quiet(1) [OF q3] resolved_once_quiet(2) [OF q3]
        have an3: "answered_names ((new1 @ new2) @ new3) m2"
          by (rule answered_names_trans)
        from l2 n3 have l3: "log3 = log @ ((new1 @ new2) @ new3)" by simp
        show ?thesis
        proof (cases r3)
          case (Inl e)
          with some inr1 inr2 a1 a2 a3 Cons.prems have "log' = log3 \<and> tm' = m2"
            by (simp add: p_def)
          with l3 ro3 have "log' = log @ ((new1 @ new2) @ new3) \<and>
              resolved_once tm ((new1 @ new2) @ new3) tm'"
            by simp
          then show ?thesis by (rule exI [of _ "(new1 @ new2) @ new3"])
        next
          case inr3: (Inr edgeTypeInput)
          obtain r4 s4 log4 where a4: "relationshipSources_loop rel fromTypeName toTypeName
              edgeTypeInput (Relationship.sources rel) (recording ask) st (s3, log3) =
              (r4, (s4, log4))"
            by (cases "relationshipSources_loop rel fromTypeName toTypeName
              edgeTypeInput (Relationship.sources rel) (recording ask) st (s3, log3)") auto
          from relationshipSources_loop_calls [OF a4] obtain new4 where
            n4: "log4 = log3 @ new4" "\<forall>c\<in>set new4. matcher_prompt c"
            unfolding calls_since_def by blast
          then have q4: "\<forall>c\<in>set new4. matcher_prompt c \<or> edge_type_prompt c" by simp
          from ro3 an3 resolved_once_quiet(1) [OF q4]
          have ro4: "resolved_once tm (((new1 @ new2) @ new3) @ new4) m2"
            by (rule resolved_once_trans)
          from an3 resolved_once_quiet(1) [OF q4] resolved_once_quiet(2) [OF q4]
          have an4: "answered_names (((new1 @ new2) @ new3) @ new4) m2"
            by (rule answered_names_trans)
          from l3 n4 have l4: "log4 = log @ (((new1 @ new2) @ new3) @ new4)" by simp
          show ?thesis
          proof (cases r4)
            case (Inl e)
            with some inr1 inr2 inr3 a1 a2 a3 a4 Cons.prems have "log' = log4 \<and> tm' = m2"
              by (simp add: p_def)
            with l4 ro4 have "log' = log @ (((new1 @ new2) @ new3) @ new4) \<and>
                resolved_once tm (((new1 @ new2) @ new3) @ new4) tm'"
              by simp
            then show ?thesis by (rule exI [of _ "((new1 @ new2) @ new3) @ new4"])
          next
            case inr4: (Inr st1)
            with some inr1 inr2 inr3 a1 a2 a3 a4 Cons.prems have
              "relationships_loop rest m2 (recording ask) (recording_inherited askI) st1
                 (s4, log4) = (r, tm', (s', log'))"
              by (simp add: p_def)
            from Cons.IH [OF this] obtain new5 where
              n5: "log' = log4 @ new5" and ro5: "resolved_once m2 new5 tm'"
              by blast
            from ro4 an4 ro5
            have "resolved_once tm ((((new1 @ new2) @ new3) @ new4) @ new5) tm'"
              by (rule resolved_once_trans)
            moreover from l4 n5 have "log' = log @ ((((new1 @ new2) @ new3) @ new4) @ new5)"
              by simp
            ultimately have "log' = log @ ((((new1 @ new2) @ new3) @ new4) @ new5) \<and>
                resolved_once tm ((((new1 @ new2) @ new3) @ new4) @ new5) tm'"
              by simp
            then show ?thesis by (rule exI [of _ "(((new1 @ new2) @ new3) @ new4) @ new5"])
          qed
        qed
      qed
    qed
  qed
qed

lemma topologyTypes_loop_binds:
  assumes "topologyTypes_loop (t # rest) ms ask st (Some m) s = (r, tm', s')"
      and "ask s (''Enter new name for type \"'' @ TopologyType.name t @ ''\"'')
             (suggestNewTypeName (TopologyType.name t)) = (a, s1)"
  shows "(\<not> truthy a \<longrightarrow> r = Inl UserCancelled \<and> tm' = Some m \<and> s' = s1) \<and>
         (\<forall>n. a = Some n \<and> n \<noteq> [] \<longrightarrow>
            (\<exists>m'. tm' = Some m' \<and>
               (TopologyType.name t \<notin> TopologyType.name ` set rest \<longrightarrow>
                  m' (TopologyType.name t) = Some n)))"
proof -
  have one: "r = Inl UserCancelled \<and> tm' = Some m \<and> s' = s1" if "\<not> truthy a"
    using that assms by (auto simp: awaitInput_def truthy_def split: option.splits)
  have two: "\<exists>m'. tm' = Some m' \<and>
               (TopologyType.name t \<notin> TopologyType.name ` set rest \<longrightarrow>
                  m' (TopologyType.name t) = Some n)" if "a = Some n \<and> n \<noteq> []" for n
  proof -
  from that assms(2) have aw: "awaitInput ask (''Enter new name for type \"'' @ TopologyType.name t @ ''\"'')
             (suggestNewTypeName (TopologyType.name t)) s = (Inr n, s1)"
    by (simp add: awaitInput_def)
  let ?m1 = "m(TopologyType.name t \<mapsto> n)"
  obtain r2 s2 where a2: "typeRules_loop t n (rules t) ms ask st s1 = (r2, s2)"
    by (cases "typeRules_loop t n (rules t) ms ask st s1")
  show "\<exists>m'. tm' = Some m' \<and>
               (TopologyType.name t \<notin> TopologyType.name ` set rest \<longrightarrow>
                  m' (TopologyType.name t) = Some n)"
  proof (cases r2)
    case (Inl e)
    with aw a2 assms(1) have "tm' = Some ?m1" by (simp add: Let_def)
    then show ?thesis by simp
  next
    case (Inr st2)
    with aw a2 assms(1) have "topologyTypes_loop rest ms ask st2 (Some ?m1) s2 = (r, tm', s')"
      by (simp add: Let_def)
    from topologyTypes_loop_mapping [OF this] obtain m' where
      "tm' = Some m'" "\<forall>k. k \<notin> TopologyType.name ` set rest \<longrightarrow> m' k = ?m1 k"
      by blast
    then show ?thesis by simp
  qed
  qed
  from one two show ?thesis by blast
qed

subsection \<open>Name mapping\<close>

lemma awaitInput_Inr_nonempty: "awaitInput ask p v s = (Inr x, s') \<Longrightarrow> x \<noteq> []"
  by (auto simp: awaitInput_def split: prod.splits option.splits if_splits)

lemma lookupOrAskTypeName_mapped:
  assumes "tm k = Some v" and "v \<noteq> []"
  shows "lookupOrAskTypeName role k tm ask s = (Inr v, tm, s)"
  using assms by (simp add: lookupOrAskTypeName_def Let_def)

lemma relationships_loop_keeps:
  assumes "relationships_loop rels tm ask askI st s = (r, tm', s')" and "truthy (tm k)"
  shows "tm' k = tm k"
proof -
  obtain r0 tm0 s0 log0 where rec: "relationships_loop rels tm (recording ask)
      (recording_inherited askI) st (s, []) = (r0, tm0, (s0, log0))"
    by (cases "relationships_loop rels tm (recording ask) (recording_inherited askI) st (s, [])")
       auto
  from relationships_loop_recording [OF rec] assms(1) have "tm0 = tm'" by simp
  moreover from relationships_loop_asks [OF rec] have "resolved_once tm log0 tm0" by simp
  ultimately show ?thesis using assms(2) by (simp add: resolved_once_def)
qed

lemma topologyTypes_loop_nonempty:
  assumes "topologyTypes_loop ts ms ask st (Some m) s = (r, tm', s')"
      and "bound_names_nonempty m"
  shows "\<exists>m'. tm' = Some m' \<and> bound_names_nonempty m'"
  using assms
proof (induction ts arbitrary: st m s)
  case Nil
  then show ?case by auto
next
  case (Cons type rest)
  let ?p = "''Enter new name for type \"'' @ TopologyType.name type @ ''\"''"
  obtain r1 s1 where a1: "awaitInput ask ?p (suggestNewTypeName (TopologyType.name type)) s = (r1, s1)"
    by (cases "awaitInput ask ?p (suggestNewTypeName (TopologyType.name type)) s") auto
  show ?case
  proof (cases r1)
    case (Inl e)
    with a1 Cons.prems show ?thesis by auto
  next
    case (Inr newName)
    with a1 have ne: "newName \<noteq> []" by (auto dest: awaitInput_Inr_nonempty)
    let ?m1 = "m(TopologyType.name type \<mapsto> newName)"
    from ne Cons.prems(2) have b1: "bound_names_nonempty ?m1"
      unfolding bound_names_nonempty_def by auto
    have "tm' = Some ?m1 \<or>
          (\<exists>st1 s2. topologyTypes_loop rest ms ask st1 (Some ?m1) s2 = (r, tm', s'))"
      using Cons.prems(1) a1 Inr
      by (auto simp: Let_def split: prod.splits sum.splits)
    then show ?thesis
    proof (elim disjE exE)
      assume "tm' = Some ?m1"
      with b1 show ?thesis by simp
    next
      fix st1 s2 assume "topologyTypes_loop rest ms ask st1 (Some ?m1) s2 = (r, tm', s')"
      from Cons.IH [OF this b1] show ?thesis .
    qed
  qed
qed

lemma createProcessorsFromTopology_loop:
  assumes "createProcessorsFromTopology ts ms ask tm s = (r, tm', s')"
  shows "\<exists>r0. topologyTypes_loop ts ms ask
           \<lparr>metricsProcessors = [], logsProcessors = [], metricsCounter = 0, logsCounter = 0,
            entityTypesWithNodeExtraction = {}\<rparr> tm s = (r0, tm', s') \<and>
           ((\<exists>e. r0 = Inl e \<and> r = Inl e) \<or> (\<exists>st out. r0 = Inr st \<and> r = Inr out))"
  using assms unfolding createProcessorsFromTopology_def
  by (auto split: prod.splits sum.splits)

lemma topologyTypes_loop_first_call:
  assumes run: "topologyTypes_loop (t # rest) ms (recording ask) st (Some m) (s, log) =
                  (r, tm', (s', log'))"
  shows "\<exists>c more. log' = log @ c # more \<and>
           prompt c = ''Enter new name for type \"'' @ TopologyType.name t @ ''\"'' \<and>
           (\<not> truthy (answer c) \<longrightarrow> r = Inl UserCancelled \<and> tm' = Some m \<and> more = []) \<and>
           (truthy (answer c) \<longrightarrow>
              (\<exists>m'. tm' = Some m' \<and>
                 (TopologyType.name t \<notin> TopologyType.name ` set rest \<longrightarrow>
                    m' (TopologyType.name t) = answer c)))"
proof -
  define p where "p = ''Enter new name for type \"'' @ TopologyType.name t @ ''\"''"
  define v where "v = suggestNewTypeName (TopologyType.name t)"
  obtain a s1 where ask: "ask s p v = (a, s1)" by (cases "ask s p v")
  define c where "c = \<lparr>prompt = p, suggestedValue = v, answer = a\<rparr>"
  from ask have rec: "recording ask (s, log) p v = (a, (s1, log @ [c]))"
    by (simp add: recording_def c_def)
  have pc: "prompt c = p" and ac: "answer c = a" by (simp_all add: c_def)
  from run have run': "topologyTypes_loop (t # rest) ms (recording ask) st (Some m) (s, log) =
                  (r, tm', (s', log'))" .
  note binds = topologyTypes_loop_binds [OF run' rec [unfolded p_def v_def]]
  show ?thesis
  proof (cases "truthy a")
    case False
    with binds have "r = Inl UserCancelled" "tm' = Some m" "(s', log') = (s1, log @ [c])"
      by simp_all
    with False pc ac have "log' = log @ c # [] \<and> prompt c = p \<and>
           (\<not> truthy (answer c) \<longrightarrow> r = Inl UserCancelled \<and> tm' = Some m \<and> [] = []) \<and>
           (truthy (answer c) \<longrightarrow>
              (\<exists>m'. tm' = Some m' \<and>
                 (TopologyType.name t \<notin> TopologyType.name ` set rest \<longrightarrow>
                    m' (TopologyType.name t) = answer c)))"
      by simp
    then show ?thesis unfolding p_def by (intro exI [of _ c] exI [of _ "[]"])
  next
    case True
    then obtain n where n: "a = Some n" "n \<noteq> []"
      by (auto simp: truthy_def split: option.splits)
    with binds have b: "\<exists>m'. tm' = Some m' \<and>
               (TopologyType.name t \<notin> TopologyType.name ` set rest \<longrightarrow>
                  m' (TopologyType.name t) = Some n)"
      by simp
    from rec n have aw: "awaitInput (recording ask) p v (s, log) = (Inr n, (s1, log @ [c]))"
      by (simp add: awaitInput_def)
    obtain r2 s2 log2 where a2: "typeRules_loop t n (rules t) ms (recording ask) st
        (s1, log @ [c]) = (r2, (s2, log2))"
      by (cases "typeRules_loop t n (rules t) ms (recording ask) st (s1, log @ [c])") auto
    from typeRules_loop_calls [OF a2] obtain new2 where n2: "log2 = (log @ [c]) @ new2"
      unfolding calls_since_def by blast
    have "\<exists>more. log' = log @ c # more"
    proof (cases r2)
      case (Inl e)
      with aw a2 run have "log' = log2" by (simp add: p_def v_def Let_def)
      with n2 have "log' = log @ c # new2" by simp
      then show ?thesis by (rule exI)
    next
      case (Inr st2)
      with aw a2 run have "topologyTypes_loop rest ms (recording ask) st2
          (Some (m(TopologyType.name t \<mapsto> n))) (s2, log2) = (r, tm', (s', log'))"
        by (simp add: p_def v_def Let_def)
      from topologyTypes_loop_calls [OF this] obtain new3 where "log' = log2 @ new3" by blast
      with n2 have "log' = log @ c # (new2 @ new3)" by simp
      then show ?thesis by (rule exI)
    qed
    then obtain more where "log' = log @ c # more" by blast
    with True b n pc ac have "log' = log @ c # more \<and> prompt c = p \<and>
           (\<not> truthy (answer c) \<longrightarrow> r = Inl UserCancelled \<and> tm' = Some m \<and> more = []) \<and>
           (truthy (answer c) \<longrightarrow>
              (\<exists>m'. tm' = Some m' \<and>
                 (TopologyType.name t \<notin> TopologyType.name ` set rest \<longrightarrow>
                    m' (TopologyType.name t) = answer c)))"
      by simp
    then show ?thesis unfolding p_def by (intro exI [of _ c] exI [of _ more])
  qed
qed

text \<open>
  C9, as amended. Edge compilation never overwrites a mapping entry and never asks for
  a mapped name. Resolving a mapped name there is a pure lookup: it returns the bound
  name, makes no Resolution Port call and leaves the mapping as it is. Whatever
  relationships have been compiled, in the rest of edge compilation every name that is
  mapped at that point keeps its binding and is not asked for, and every other name is
  asked for at most once; and every binding made by node compilation is still there
  after edge compilation. Node compilation is different: it asks the Port once for
  every entry of the list of types, in the order of the list, and binds the answer
  under the name of the entry, also when that name is bound already. So the binding of
  a name at the end of node compilation is the answer given for the last entry of that
  name, and an earlier binding of the name is overwritten.
\<close>

theorem name_bindings_kept:
  "(tm k = Some v \<and> v \<noteq> [] \<longrightarrow>
      lookupOrAskTypeName role k tm (recording ask) (s, log) = (Inr v, tm, (s, log))) \<and>
   (relationships_loop before tm (recording ask) (recording_inherited askI) st (s, log) =
      (Inr st1, tm1, (s1, log1)) \<and>
    relationships_loop (before @ after) tm (recording ask) (recording_inherited askI) st (s, log) =
      (r, tm2, (s2, log2)) \<longrightarrow>
      relationships_loop (before @ after) tm ask askI st s = (r, tm2, s2) \<and>
      (\<exists>new. log2 = log1 @ new \<and> resolved_once tm1 new tm2)) \<and>
   (createProcessorsFromTopology ts ms ask (Some Map.empty) s = (Inr nodes, Some tm1, s1) \<and>
    createProcessorsFromRelationships rels tm1 ask askI s1 = (r', tm2, s2) \<and> tm1 k = Some v \<longrightarrow>
      tm2 k = Some v) \<and>
   (createProcessorsFromTopology ts ms (recording ask) tm0 (s, log) = (rn, tmn, (sn, logn)) \<longrightarrow>
      createProcessorsFromTopology ts ms ask tm0 s = (rn, tmn, sn) \<and>
      (\<exists>new. logn = log @ new \<and>
         prefix (map prompt (filter type_name_prompt new))
           (map (\<lambda>t. ''Enter new name for type \"'' @ TopologyType.name t @ ''\"'') ts) \<and>
         ((\<exists>out. rn = Inr out) \<longrightarrow>
            map prompt (filter type_name_prompt new) =
            map (\<lambda>t. ''Enter new name for type \"'' @ TopologyType.name t @ ''\"'') ts))) \<and>
   (createProcessorsFromTopology ts1 ms (recording ask) (Some m) (s, log) =
      (Inr nodes1, Some m1, (s1, log1)) \<and>
    createProcessorsFromTopology (ts1 @ t # ts2) ms (recording ask) (Some m) (s, log) =
      (r'', tm', (s', log')) \<longrightarrow>
      (\<exists>c more. log' = log1 @ c # more \<and>
         prompt c = ''Enter new name for type \"'' @ TopologyType.name t @ ''\"'' \<and>
         (\<not> truthy (answer c) \<longrightarrow> r'' = Inl UserCancelled \<and> tm' = Some m1 \<and> more = []) \<and>
         (truthy (answer c) \<longrightarrow>
            (\<exists>m'. tm' = Some m' \<and>
               (TopologyType.name t \<notin> TopologyType.name ` set ts2 \<longrightarrow>
                  m' (TopologyType.name t) = answer c)))))"
proof -
  let ?init = "\<lparr>metricsProcessors = [], logsProcessors = [], metricsCounter = 0, logsCounter = 0,
            entityTypesWithNodeExtraction = {}\<rparr>"
  let ?P = "\<lambda>t. ''Enter new name for type \"'' @ TopologyType.name t @ ''\"''"
  have one: "lookupOrAskTypeName role k tm (recording ask) (s, log) = (Inr v, tm, (s, log))"
    if "tm k = Some v \<and> v \<noteq> []"
    using that by (simp add: lookupOrAskTypeName_mapped)
  have two: "relationships_loop (before @ after) tm ask askI st s = (r, tm2, s2) \<and>
             (\<exists>new. log2 = log1 @ new \<and> resolved_once tm1 new tm2)"
    if h: "relationships_loop before tm (recording ask) (recording_inherited askI) st (s, log) =
             (Inr st1, tm1, (s1, log1)) \<and>
           relationships_loop (before @ after) tm (recording ask) (recording_inherited askI) st
             (s, log) = (r, tm2, (s2, log2))"
  proof -
    from h have b: "relationships_loop before tm (recording ask) (recording_inherited askI) st
        (s, log) = (Inr st1, tm1, (s1, log1))"
      and w: "relationships_loop (before @ after) tm (recording ask) (recording_inherited askI)
        st (s, log) = (r, tm2, (s2, log2))"
      by simp_all
    from w have "relationships_loop after tm1 (recording ask) (recording_inherited askI) st1
        (s1, log1) = (r, tm2, (s2, log2))"
      unfolding relationships_loop_append b by simp
    then have "\<exists>new. log2 = log1 @ new \<and> resolved_once tm1 new tm2"
      by (rule relationships_loop_asks)
    moreover from relationships_loop_recording [OF w]
    have "relationships_loop (before @ after) tm ask askI st s = (r, tm2, s2)" by simp
    ultimately show ?thesis by simp
  qed
  have three: "tm2 k = Some v"
    if h: "createProcessorsFromTopology ts ms ask (Some Map.empty) s = (Inr nodes, Some tm1, s1) \<and>
           createProcessorsFromRelationships rels tm1 ask askI s1 = (r', tm2, s2) \<and> tm1 k = Some v"
  proof -
    from h obtain r0 where
      "topologyTypes_loop ts ms ask ?init (Some Map.empty) s = (r0, Some tm1, s1)"
      using createProcessorsFromTopology_loop [of ts ms ask "Some Map.empty" s "Inr nodes"
          "Some tm1" s1]
      by auto
    from topologyTypes_loop_nonempty [OF this] have "bound_names_nonempty tm1"
      by (simp add: bound_names_nonempty_def)
    with h have t: "truthy (tm1 k)" by (auto simp: bound_names_nonempty_def truthy_def)
    let ?e = "\<lparr>metricsProcessors = [], logsProcessors = [], metricsCounter = 0,
                 logsCounter = 0\<rparr>"
    obtain r1 where "relationships_loop rels tm1 ask askI ?e s1 = (r1, tm2, s2)"
      using h by (cases "relationships_loop rels tm1 ask askI ?e s1")
                 (auto simp: createProcessorsFromRelationships_def split: sum.splits)
    from relationships_loop_keeps [OF this t] h show ?thesis by simp
  qed
  have four: "createProcessorsFromTopology ts ms ask tm0 s = (rn, tmn, sn) \<and>
      (\<exists>new. logn = log @ new \<and>
         prefix (map prompt (filter type_name_prompt new)) (map ?P ts) \<and>
         ((\<exists>out. rn = Inr out) \<longrightarrow> map prompt (filter type_name_prompt new) = map ?P ts))"
    if h: "createProcessorsFromTopology ts ms (recording ask) tm0 (s, log) = (rn, tmn, (sn, logn))"
  proof -
    from createProcessorsFromTopology_loop [OF h] obtain r0 where
      l: "topologyTypes_loop ts ms (recording ask) ?init tm0 (s, log) = (r0, tmn, (sn, logn))" and
      r: "(\<exists>out. rn = Inr out) \<longrightarrow> (\<exists>st'. r0 = Inr st')"
      by auto
    from topologyTypes_loop_calls [OF l] obtain new where
      "logn = log @ new" "prefix (map prompt (filter type_name_prompt new)) (map ?P ts)"
      "(\<exists>st'. r0 = Inr st') \<longrightarrow> map prompt (filter type_name_prompt new) = map ?P ts"
      by blast
    with r have "logn = log @ new \<and>
         prefix (map prompt (filter type_name_prompt new)) (map ?P ts) \<and>
         ((\<exists>out. rn = Inr out) \<longrightarrow> map prompt (filter type_name_prompt new) = map ?P ts)"
      by simp
    then have "\<exists>new. logn = log @ new \<and>
         prefix (map prompt (filter type_name_prompt new)) (map ?P ts) \<and>
         ((\<exists>out. rn = Inr out) \<longrightarrow> map prompt (filter type_name_prompt new) = map ?P ts)"
      by (rule exI [of _ new])
    moreover from createProcessorsFromTopology_recording [OF h]
    have "createProcessorsFromTopology ts ms ask tm0 s = (rn, tmn, sn)" by simp
    ultimately show ?thesis by simp
  qed
  have five: "\<exists>c more. log' = log1 @ c # more \<and> prompt c = ?P t \<and>
         (\<not> truthy (answer c) \<longrightarrow> r'' = Inl UserCancelled \<and> tm' = Some m1 \<and> more = []) \<and>
         (truthy (answer c) \<longrightarrow>
            (\<exists>m'. tm' = Some m' \<and>
               (TopologyType.name t \<notin> TopologyType.name ` set ts2 \<longrightarrow>
                  m' (TopologyType.name t) = answer c)))"
    if h: "createProcessorsFromTopology ts1 ms (recording ask) (Some m) (s, log) =
             (Inr nodes1, Some m1, (s1, log1)) \<and>
           createProcessorsFromTopology (ts1 @ t # ts2) ms (recording ask) (Some m) (s, log) =
             (r'', tm', (s', log'))"
  proof -
    from h obtain stA where
      l1: "topologyTypes_loop ts1 ms (recording ask) ?init (Some m) (s, log) =
           (Inr stA, Some m1, (s1, log1))"
      using createProcessorsFromTopology_loop [of ts1 ms "recording ask" "Some m" "(s, log)"
          "Inr nodes1" "Some m1" "(s1, log1)"]
      by auto
    from h obtain r0 where
      l2: "topologyTypes_loop (ts1 @ t # ts2) ms (recording ask) ?init (Some m) (s, log) =
           (r0, tm', (s', log'))" and
      r0: "r0 = Inl UserCancelled \<longrightarrow> r'' = Inl UserCancelled"
      using createProcessorsFromTopology_loop [of "ts1 @ t # ts2" ms "recording ask" "Some m"
          "(s, log)" r'' tm' "(s', log')"]
      by auto
    from l2 have "topologyTypes_loop (t # ts2) ms (recording ask) stA (Some m1) (s1, log1) =
        (r0, tm', (s', log'))"
      unfolding topologyTypes_loop_append l1 by simp
    from topologyTypes_loop_first_call [OF this] obtain c more where
      "log' = log1 @ c # more" "prompt c = ?P t"
      "\<not> truthy (answer c) \<longrightarrow> r0 = Inl UserCancelled \<and> tm' = Some m1 \<and> more = []"
      "truthy (answer c) \<longrightarrow>
         (\<exists>m'. tm' = Some m' \<and>
            (TopologyType.name t \<notin> TopologyType.name ` set ts2 \<longrightarrow>
               m' (TopologyType.name t) = answer c))"
      by blast
    with r0 have "log' = log1 @ c # more \<and> prompt c = ?P t \<and>
         (\<not> truthy (answer c) \<longrightarrow> r'' = Inl UserCancelled \<and> tm' = Some m1 \<and> more = []) \<and>
         (truthy (answer c) \<longrightarrow>
            (\<exists>m'. tm' = Some m' \<and>
               (TopologyType.name t \<notin> TopologyType.name ` set ts2 \<longrightarrow>
                  m' (TopologyType.name t) = answer c)))"
      by simp
    then show ?thesis by (intro exI [of _ c] exI [of _ more])
  qed
  show ?thesis
    apply (intro conjI)
    subgoal by (rule impI) (rule one)
    subgoal by (rule impI) (rule two)
    subgoal by (rule impI) (rule three)
    subgoal by (rule impI) (rule four)
    subgoal by (rule impI) (rule five)
    done
qed

theorem name_bindings_kept_witness:
  "lookupOrAskTypeName ''source'' ''cloudhub:org'' [''cloudhub:org'' \<mapsto> ''ORG'']
     (recording autoInputCallback) ((), []) =
     (Inr ''ORG'', [''cloudhub:org'' \<mapsto> ''ORG''], ((), [])) \<and>
   (\<exists>r m' s' log'.
      createProcessorsFromTopology
        [\<lparr>TopologyType.name = ''cloudhub:org'', TopologyType.displayName = ''Org'', rules = []\<rparr>,
         \<lparr>TopologyType.name = ''cloudhub:env'', TopologyType.displayName = ''Env'', rules = []\<rparr>,
         \<lparr>TopologyType.name = ''cloudhub:org'', TopologyType.displayName = ''Org'', rules = []\<rparr>]
        None (recording scripted) (Some Map.empty)
        ([Some ''ORG'', Some ''ENV'', Some ''ORG2''], []) = (r, Some m', (s', log')) \<and>
      map answer log' = [Some ''ORG'', Some ''ENV'', Some ''ORG2''] \<and>
      m' ''cloudhub:org'' = Some ''ORG2'')"
proof -
  let ?org = "\<lparr>TopologyType.name = ''cloudhub:org'', TopologyType.displayName = ''Org'', rules = []\<rparr>"
  let ?env = "\<lparr>TopologyType.name = ''cloudhub:env'', TopologyType.displayName = ''Env'', rules = []\<rparr>"
  let ?script = "[Some ''ORG'', Some ''ENV'', Some ''ORG2'']"
  let ?tm = "[''cloudhub:org'' \<mapsto> ''ORG'']"
  have m: "?tm ''cloudhub:org'' = Some ''ORG'' \<and> ''ORG'' \<noteq> []" by simp
  have 1: "lookupOrAskTypeName ''source'' ''cloudhub:org'' ?tm (recording autoInputCallback)
             ((), []) = (Inr ''ORG'', ?tm, ((), []))"
    by (rule name_bindings_kept [where tm = ?tm and k = "''cloudhub:org''" and v = "''ORG''",
          THEN conjunct1, rule_format, OF m])
  have "\<exists>nodes1 m1 s1 log1.
      createProcessorsFromTopology [?org, ?env] None (recording scripted) (Some Map.empty)
        (?script, []) = (Inr nodes1, Some m1, (s1, log1)) \<and>
      map answer log1 = [Some ''ORG'', Some ''ENV'']"
    by (simp add: createProcessorsFromTopology_def awaitInput_def recording_def scripted_def)
  then obtain nodes1 m1 s1 log1 where
    run1: "createProcessorsFromTopology [?org, ?env] None (recording scripted) (Some Map.empty)
        (?script, []) = (Inr nodes1, Some m1, (s1, log1))" and
    log1: "map answer log1 = [Some ''ORG'', Some ''ENV'']"
    by (elim exE conjE)
  have "\<exists>r tm' s' log'.
      createProcessorsFromTopology ([?org, ?env] @ ?org # []) None (recording scripted)
        (Some Map.empty) (?script, []) = (r, tm', (s', log')) \<and>
      map answer log' = [Some ''ORG'', Some ''ENV'', Some ''ORG2'']"
    by (simp add: createProcessorsFromTopology_def awaitInput_def recording_def scripted_def)
  then obtain r tm' s' log' where
    run2: "createProcessorsFromTopology ([?org, ?env] @ ?org # []) None (recording scripted)
        (Some Map.empty) (?script, []) = (r, tm', (s', log'))" and
    log': "map answer log' = [Some ''ORG'', Some ''ENV'', Some ''ORG2'']"
    by (elim exE conjE)
  from name_bindings_kept [THEN conjunct2, THEN conjunct2, THEN conjunct2, THEN conjunct2,
      rule_format, OF conjI [OF run1 run2]]
  obtain c more where c: "log' = log1 @ c # more"
      "truthy (answer c) \<longrightarrow>
         (\<exists>m'. tm' = Some m' \<and>
            (TopologyType.name ?org \<notin> TopologyType.name ` set ([] :: TopologyType list) \<longrightarrow>
               m' (TopologyType.name ?org) = answer c))"
    by (elim exE conjE) (rule that, assumption+)
  from c(1) have "map answer log' = map answer log1 @ answer c # map answer more" by simp
  with log1 log' have "answer c = Some ''ORG2''" by simp
  with c(2) obtain m' where "tm' = Some m'" "m' ''cloudhub:org'' = Some ''ORG2''"
    by (auto simp: truthy_def)
  with run2 log' have "\<exists>r m' s' log'.
      createProcessorsFromTopology [?org, ?env, ?org] None (recording scripted) (Some Map.empty)
        (?script, []) = (r, Some m', (s', log')) \<and>
      map answer log' = [Some ''ORG'', Some ''ENV'', Some ''ORG2''] \<and>
      m' ''cloudhub:org'' = Some ''ORG2''"
    by auto
  with 1 show ?thesis by (rule conjI)
qed

text \<open>
  The claim as stated fails on a list that holds a type name twice: the second entry
  makes a Port call of its own, for a name that is mapped, and its answer replaces the
  binding of the first.
\<close>

theorem duplicate_type_name_rebinds:
  "map_option (\<lambda>m. m ''cloudhub:org'')
     (fst (snd (createProcessorsFromTopology
        [\<lparr>TopologyType.name = ''cloudhub:org'', TopologyType.displayName = ''Org'', rules = []\<rparr>]
        None scripted (Some Map.empty) [Some ''ORG'', Some ''ORG2'']))) = Some (Some ''ORG'') \<and>
   map_option (\<lambda>m. m ''cloudhub:org'')
     (fst (snd (createProcessorsFromTopology
        [\<lparr>TopologyType.name = ''cloudhub:org'', TopologyType.displayName = ''Org'', rules = []\<rparr>,
         \<lparr>TopologyType.name = ''cloudhub:org'', TopologyType.displayName = ''Org'', rules = []\<rparr>]
        None scripted (Some Map.empty) [Some ''ORG'', Some ''ORG2'']))) = Some (Some ''ORG2'') \<and>
   snd (snd (createProcessorsFromTopology
        [\<lparr>TopologyType.name = ''cloudhub:org'', TopologyType.displayName = ''Org'', rules = []\<rparr>,
         \<lparr>TopologyType.name = ''cloudhub:org'', TopologyType.displayName = ''Org'', rules = []\<rparr>]
        None scripted (Some Map.empty) [Some ''ORG'', Some ''ORG2''])) = []"
  by (simp add: createProcessorsFromTopology_def awaitInput_def scripted_def)
end
